theory Spec2Isabelle
  imports Main "HOL-Library.Sublist"
begin

section \<open>The RNS510 code finder: data model\<close>

text \<open>
  The program is the class \<open>RNS510CodeFinder\<close> of \<open>rns510_code_finder.py\<close>. Its methods
  mutate the object and call the serial library, so every method is a function from the
  object's state to a result and the state after the call. A raised exception is the
  \<open>Inl\<close> of the result; the state it leaves behind is kept, as Python keeps it.

  Three kinds of exception are told apart, because \<open>find_code\<close> has one handler for
  \<open>serial.SerialException\<close>, one for every other \<open>Exception\<close>, and none for an exception
  outside \<open>Exception\<close> (\<open>KeyboardInterrupt\<close> stands for those).
\<close>

datatype exn = SerialException | OtherException | KeyboardInterrupt

text \<open>
  The calls to \<open>logging\<close>, in the order they are made. \<open>logging.debug\<close> calls are left
  out: the constructor sets the level to \<open>INFO\<close>.
\<close>

datatype event =
    Opened
  | Closed
  | Stopped
  | Trying string
  | Found string
  | Invalid string
  | NoResponse string
  | SerialError
  | UnexpectedError

datatype level = Info | Warning | Error

fun level_of :: "event \<Rightarrow> level" where
  "level_of (NoResponse p) = Warning"
| "level_of SerialError = Error"
| "level_of UnexpectedError = Error"
| "level_of e = Info"

text \<open>
  The serial library is not part of the repository. It is a parameter: a device state
  \<open>'d\<close> and what each call of \<open>serial.Serial\<close> does to it. \<open>sp_open\<close> and \<open>sp_write\<close>
  may raise; \<open>sp_read\<close> is \<open>read(in_waiting).decode("utf-8")\<close>, the text that is waiting,
  and may raise as well (a failed read or a failed decoding); \<open>sp_close\<close> releases the
  port and is taken to raise nothing, the program having no handler around it. Each call
  returns the device state it leaves, also when it raises.
\<close>

record 'd transport =
  sp_open :: "'d \<Rightarrow> exn option \<times> 'd"
  sp_close :: "'d \<Rightarrow> 'd"
  sp_write :: "string \<Rightarrow> 'd \<Rightarrow> exn option \<times> 'd"
  sp_read :: "'d \<Rightarrow> (exn + string) \<times> 'd"

text \<open>
  The object: \<open>port\<close> and \<open>is_open\<close> are \<open>self.serial_port\<close> (the device behind it and
  its \<open>is_open\<close> attribute), then \<open>self.stop_count\<close>, \<open>self.pin\<close>, \<open>self.rx\<close>, and the
  log written so far.
\<close>

record 'd finder =
  port :: 'd
  is_open :: bool
  stop_count :: bool
  pin :: string
  rx :: string
  events :: "event list"

text \<open>The fields as \<open>__init__\<close> sets them; whether the port is open is the library's matter.\<close>

definition init :: "'d \<Rightarrow> bool \<Rightarrow> 'd finder" where
  "init d opened =
     \<lparr>port = d, is_open = opened, stop_count = False, pin = ''0000'', rx = [], events = []\<rparr>"

definition logging :: "event \<Rightarrow> 'd finder \<Rightarrow> 'd finder" where
  "logging e s = s\<lparr>events := events s @ [e]\<rparr>"

section \<open>The methods\<close>

definition open_port :: "'d transport \<Rightarrow> 'd finder \<Rightarrow> (exn + unit) \<times> 'd finder" where
  "open_port tr s =
     (if \<not> is_open s then
        (case sp_open tr (port s) of
           (None, d) \<Rightarrow> (Inr (), logging Opened (s\<lparr>port := d, is_open := True\<rparr>))
         | (Some e, d) \<Rightarrow> (Inl e, s\<lparr>port := d\<rparr>))
      else (Inr (), s))"

definition close_port :: "'d transport \<Rightarrow> 'd finder \<Rightarrow> 'd finder" where
  "close_port tr s =
     (if is_open s then logging Closed (s\<lparr>port := sp_close tr (port s), is_open := False\<rparr>)
      else s)"

definition newline :: string where
  "newline = [CHR 0x0A]"

definition send_command :: "'d transport \<Rightarrow> string \<Rightarrow> 'd finder \<Rightarrow> (exn + unit) \<times> 'd finder" where
  "send_command tr command s =
     (case sp_write tr (command @ newline) (port s) of
        (None, d) \<Rightarrow> (Inr (), s\<lparr>port := d\<rparr>)
      | (Some e, d) \<Rightarrow> (Inl e, s\<lparr>port := d\<rparr>))"

definition read_response :: "'d transport \<Rightarrow> 'd finder \<Rightarrow> (exn + string) \<times> 'd finder" where
  "read_response tr s =
     (case sp_read tr (port s) of
        (Inr txt, d) \<Rightarrow> (Inr (rx s @ txt), s\<lparr>port := d, rx := rx s @ txt\<rparr>)
      | (Inl e, d) \<Rightarrow> (Inl e, s\<lparr>port := d\<rparr>))"

text \<open>
  \<open>verify_pin\<close> returns \<open>True\<close>, \<open>False\<close> or \<open>None\<close>: a \<open>bool option\<close>. Python's
  \<open>a in b\<close> on strings is \<open>sublist a b\<close>. The sleep of 0.1 s changes no state.
\<close>

definition verify_pin ::
  "'d transport \<Rightarrow> string \<Rightarrow> 'd finder \<Rightarrow> (exn + bool option) \<times> 'd finder" where
  "verify_pin tr p s =
     (case send_command tr (''TpPvVerifyPin('' @ p @ '')'') s of
        (Inl e, s1) \<Rightarrow> (Inl e, s1)
      | (Inr u, s1) \<Rightarrow>
          (case read_response tr s1 of
             (Inl e, s2) \<Rightarrow> (Inl e, s2)
           | (Inr response, s2) \<Rightarrow>
               (Inr (if sublist ''Hash valid'' response then Some True
                     else if sublist ''Hash invalid'' response then Some False
                     else None), s2)))"

subsection \<open>\<open>str(i).zfill(4)\<close>\<close>

definition digit :: "nat \<Rightarrow> char" where
  "digit n = ''0123456789'' ! (n mod 10)"

fun str_nat :: "nat \<Rightarrow> string" where
  "str_nat n = (if n < 10 then [digit n] else str_nat (n div 10) @ [digit (n mod 10)])"

declare str_nat.simps [simp del]

definition str :: "int \<Rightarrow> string" where
  "str i = (if i < 0 then CHR ''-'' # str_nat (nat (- i)) else str_nat (nat i))"

text \<open>\<open>zfill\<close> pads after a leading sign and leaves a string that is long enough as it is.\<close>

fun zfill :: "nat \<Rightarrow> string \<Rightarrow> string" where
  "zfill w [] = replicate w CHR ''0''"
| "zfill w (c # cs) =
     (if c = CHR ''+'' \<or> c = CHR ''-''
      then c # replicate (w - Suc (length cs)) CHR ''0'' @ cs
      else replicate (w - Suc (length cs)) CHR ''0'' @ c # cs)"

definition candidate :: "int \<Rightarrow> string" where
  "candidate i = zfill 4 (str i)"

subsection \<open>\<open>find_code\<close>\<close>

text \<open>
  The loop over \<open>range(start, stop + 1)\<close>, on the list of its values. \<open>stop_count\<close> is
  written by nobody in the program: it is for a signal handler or another thread to set
  while the scan runs. \<open>ctl i\<close> says that this has happened by the time the loop tests
  the flag for \<open>i\<close>; with \<open>ctl\<close> constantly false the flag is the one the caller left.
  A \<open>break\<close> and the end of the range both leave the loop with \<open>Inr ()\<close>.
\<close>

fun scan ::
  "'d transport \<Rightarrow> (int \<Rightarrow> bool) \<Rightarrow> int list \<Rightarrow> 'd finder \<Rightarrow> (exn + unit) \<times> 'd finder" where
  "scan tr ctl [] s = (Inr (), s)"
| "scan tr ctl (i # rest) s =
     (if stop_count s \<or> ctl i then (Inr (), logging Stopped (s\<lparr>stop_count := True\<rparr>))
      else
        (case verify_pin tr (candidate i) (logging (Trying (candidate i)) s) of
           (Inl e, s2) \<Rightarrow> (Inl e, s2)
         | (Inr valid, s2) \<Rightarrow>
             (if valid = Some True
              then (Inr (), (logging (Found (candidate i)) s2)\<lparr>pin := candidate i\<rparr>)
              else if valid = Some False
              then scan tr ctl rest (logging (Invalid (candidate i)) s2)
              else scan tr ctl rest (logging (NoResponse (candidate i)) s2))))"

text \<open>The body of the \<open>try\<close>.\<close>

definition find_code_try ::
  "'d transport \<Rightarrow> (int \<Rightarrow> bool) \<Rightarrow> int \<Rightarrow> int \<Rightarrow> 'd finder \<Rightarrow> (exn + unit) \<times> 'd finder" where
  "find_code_try tr ctl start stop s =
     (case open_port tr s of
        (Inl e, s1) \<Rightarrow> (Inl e, s1)
      | (Inr u, s1) \<Rightarrow> scan tr ctl [start..stop] s1)"

text \<open>The two \<open>except\<close> clauses: what still propagates, and the state.\<close>

fun find_code_except :: "(exn + unit) \<times> 'd finder \<Rightarrow> exn option \<times> 'd finder" where
  "find_code_except (Inr u, s) = (None, s)"
| "find_code_except (Inl SerialException, s) = (None, logging SerialError s)"
| "find_code_except (Inl OtherException, s) = (None, logging UnexpectedError s)"
| "find_code_except (Inl KeyboardInterrupt, s) = (Some KeyboardInterrupt, s)"

text \<open>
  \<open>find_code\<close>: the \<open>try\<close>, its handlers, and \<open>finally\<close>. The first component is the
  exception that leaves \<open>find_code\<close>, \<open>None\<close> when it returns.
\<close>

definition find_code ::
  "'d transport \<Rightarrow> (int \<Rightarrow> bool) \<Rightarrow> int \<Rightarrow> int \<Rightarrow> 'd finder \<Rightarrow> exn option \<times> 'd finder" where
  "find_code tr ctl start stop s =
     (case find_code_except (find_code_try tr ctl start stop s) of
        (r, s1) \<Rightarrow> (r, close_port tr s1))"

section \<open>Reading the log\<close>

text \<open>The PINs tried, in order: one \<open>Trying\<close> entry precedes each call of \<open>verify_pin\<close>.\<close>

fun probes :: "event list \<Rightarrow> string list" where
  "probes [] = []"
| "probes (Trying p # es) = p # probes es"
| "probes (e # es) = probes es"

text \<open>The entries written between two states, and the PINs reported as found.\<close>

definition logged :: "'d finder \<Rightarrow> 'd finder \<Rightarrow> event list" where
  "logged s s' = drop (length (events s)) (events s')"

fun founds :: "event list \<Rightarrow> string list" where
  "founds [] = []"
| "founds (Found p # es) = p # founds es"
| "founds (e # es) = founds es"

text \<open>How often the closing of the port was logged.\<close>

definition closed_count :: "event list \<Rightarrow> nat" where
  "closed_count es = length (filter (\<lambda>e. e = Closed) es)"

text \<open>The number a string of decimal digits denotes.\<close>

fun digit_val :: "char \<Rightarrow> nat" where
  "digit_val c = of_char c - 48"

definition dec_val :: "string \<Rightarrow> nat" where
  "dec_val cs = foldl (\<lambda>a c. 10 * a + digit_val c) 0 cs"

section \<open>Simulated transports\<close>

text \<open>
  A device that answers every command line with \<open>reply\<close> of it: the device state is the
  text waiting to be read. \<open>lock42\<close> accepts the PIN 0042 only. \<open>no_port\<close> is a port that
  cannot be opened or used.
\<close>

definition device :: "(string \<Rightarrow> string) \<Rightarrow> string transport" where
  "device reply =
     \<lparr>sp_open = (\<lambda>d. (None, d)), sp_close = (\<lambda>d. d),
      sp_write = (\<lambda>c d. (None, d @ reply c)), sp_read = (\<lambda>d. (Inr d, []))\<rparr>"

definition lock42 :: "string \<Rightarrow> string" where
  "lock42 c = (if c = ''TpPvVerifyPin(0042)'' @ newline then ''Hash valid'' else ''Hash invalid'')"

definition no_port :: "string transport" where
  "no_port =
     \<lparr>sp_open = (\<lambda>d. (Some SerialException, d)), sp_close = (\<lambda>d. d),
      sp_write = (\<lambda>c d. (Some SerialException, d)), sp_read = (\<lambda>d. (Inl SerialException, d))\<rparr>"

text \<open>
  A device that never answers, on a port whose writing fails with a \<open>SerialException\<close> when
  the line written is \<open>c\<close>.
\<close>

definition unplug_at :: "string \<Rightarrow> string transport" where
  "unplug_at c =
     \<lparr>sp_open = (\<lambda>d. (None, d)), sp_close = (\<lambda>d. d),
      sp_write = (\<lambda>x d. if x = c then (Some SerialException, d) else (None, d)),
      sp_read = (\<lambda>d. (Inr d, []))\<rparr>"

section \<open>Closing the port\<close>

lemma close_port_closed: "\<not> is_open (close_port tr s)"
  by (simp add: close_port_def logging_def)

text \<open>
  C1. However the scan ends (a PIN found, the range exhausted, the flag set, an exception
  of the transport or any other, caught or not), the port is closed when \<open>find_code\<close> is
  left.
\<close>

theorem find_code_closes_port: "\<not> is_open (snd (find_code tr ctl start stop s))"
  by (simp add: find_code_def close_port_closed split: prod.split)

section \<open>The classification of the answer\<close>

lemma verify_pin_frame:
  assumes "verify_pin tr p s = (r, s')"
  shows "is_open s' = is_open s \<and> stop_count s' = stop_count s \<and> pin s' = pin s
         \<and> events s' = events s \<and> prefix (rx s) (rx s')"
  using assms
  by (auto simp: verify_pin_def send_command_def read_response_def
      split: prod.splits sum.splits option.splits)

lemma verify_pin_classifies:
  assumes "verify_pin tr p s = (Inr v, s')"
  shows "v = (if sublist ''Hash valid'' (rx s') then Some True
              else if sublist ''Hash invalid'' (rx s') then Some False else None)"
  using assms
  by (auto simp: verify_pin_def send_command_def read_response_def
      split: prod.splits sum.splits option.splits)

text \<open>
  C8. Closing twice is closing once: the second call changes nothing, the port is closed
  afterwards whatever its state was, and the two calls log the closing at most once (once
  when the port was open, never when it was not). \<open>close_port\<close> raises nothing.
\<close>

theorem close_port_idempotent:
  "close_port tr (close_port tr s) = close_port tr s
   \<and> \<not> is_open (close_port tr (close_port tr s))
   \<and> events (close_port tr (close_port tr s)) = events s @ (if is_open s then [Closed] else [])
   \<and> closed_count (events (close_port tr (close_port tr s))) \<le> Suc (closed_count (events s))"
  by (simp add: close_port_def logging_def closed_count_def)

text \<open>
  C2, as amended. When \<open>verify_pin\<close> returns, it returns one of \<open>True\<close>, \<open>False\<close> and
  \<open>None\<close>: \<open>True\<close> exactly when the buffer it read contains "Hash valid"; \<open>False\<close>
  exactly when the buffer contains "Hash invalid" and does not contain "Hash valid";
  \<open>None\<close> exactly when it contains neither.
\<close>

theorem verify_pin_outcome:
  assumes "verify_pin tr p s = (Inr v, s')"
  shows "(v = Some True \<or> v = Some False \<or> v = None)
         \<and> (v = Some True \<longleftrightarrow> sublist ''Hash valid'' (rx s'))
         \<and> (v = Some False \<longleftrightarrow> sublist ''Hash invalid'' (rx s') \<and> \<not> sublist ''Hash valid'' (rx s'))
         \<and> (v = None \<longleftrightarrow> \<not> sublist ''Hash valid'' (rx s') \<and> \<not> sublist ''Hash invalid'' (rx s'))"
  using verify_pin_classifies [OF assms] by auto

lemma verify_device:
  "verify_pin (device reply) p s =
     (Inr (if sublist ''Hash valid'' (rx s @ port s @ reply (''TpPvVerifyPin('' @ p @ '')'' @ newline))
           then Some True
           else if sublist ''Hash invalid'' (rx s @ port s @ reply (''TpPvVerifyPin('' @ p @ '')'' @ newline))
           then Some False else None),
      s\<lparr>port := [], rx := rx s @ port s @ reply (''TpPvVerifyPin('' @ p @ '')'' @ newline)\<rparr>)"
  by (simp add: verify_pin_def send_command_def read_response_def device_def)

text \<open>
  C2 as stated fails where the buffer holds both texts: after an earlier "Hash invalid",
  the answer "Hash valid" to 0042 leaves a buffer that contains "Hash invalid", and
  \<open>verify_pin\<close> returns \<open>True\<close>, not \<open>False\<close>.
\<close>

theorem verify_pin_invalid_counterexample:
  "sublist ''Hash invalid'' (rx (snd (verify_pin (device lock42) ''0042'' ((init [] True)\<lparr>rx := ''Hash invalid''\<rparr>))))
   \<and> fst (verify_pin (device lock42) ''0042'' ((init [] True)\<lparr>rx := ''Hash invalid''\<rparr>)) = Inr (Some True)"
  by (simp add: verify_device lock42_def newline_def init_def sublist_Cons_right)

theorem verify_pin_outcome_witness:
  "verify_pin (device lock42) ''0041'' ((init [] True)\<lparr>rx := ''Hash invalid''\<rparr>)
     = (Inr (Some False), (init [] True)\<lparr>rx := ''Hash invalidHash invalid''\<rparr>)
   \<and> sublist ''Hash invalid'' ''Hash invalidHash invalid''
   \<and> \<not> sublist ''Hash valid'' ''Hash invalidHash invalid''"
proof -
  have run: "verify_pin (device lock42) ''0041'' ((init [] True)\<lparr>rx := ''Hash invalid''\<rparr>)
     = (Inr (Some False), (init [] True)\<lparr>rx := ''Hash invalidHash invalid''\<rparr>)"
    by (simp add: verify_device lock42_def newline_def init_def sublist_Cons_right)
  from verify_pin_outcome [OF run] show ?thesis
    using run by (simp add: init_def)
qed

section \<open>The candidate PINs\<close>

lemma replicate_num: "replicate (numeral k) x = x # replicate (pred_numeral k) x"
  by (simp add: numeral_eq_Suc)

lemmas candidate_eval = candidate_def str_def str_nat.simps digit_def replicate_num

lemma digit_props:
  assumes "m < 10"
  shows "digit_val (''0123456789'' ! m) = m \<and> ''0123456789'' ! m \<in> set ''0123456789''"
proof -
  from assms have "m = 0 \<or> m = 1 \<or> m = 2 \<or> m = 3 \<or> m = 4 \<or> m = 5 \<or> m = 6 \<or> m = 7 \<or> m = 8 \<or> m = 9"
    by arith
  then show ?thesis
    by (elim disjE) (simp_all add: eval_nat_numeral)
qed

lemma digit_val_digit: "digit_val (digit n) = n mod 10"
  using digit_props [of "n mod 10"] by (simp add: digit_def)

lemma digit_in_digits: "digit n \<in> set ''0123456789''"
  using digit_props [of "n mod 10"] by (simp add: digit_def)

lemma dec_val_snoc: "dec_val (cs @ [c]) = 10 * dec_val cs + digit_val c"
  by (simp add: dec_val_def)

lemma dec_val_str_nat: "dec_val (str_nat n) = n"
proof (induction n rule: str_nat.induct)
  case (1 n)
  show ?case
  proof (cases "n < 10")
    case True
    then show ?thesis
      by (subst str_nat.simps) (simp add: dec_val_def digit_val_digit del: digit_val.simps)
  next
    case False
    with 1 show ?thesis
      by (subst str_nat.simps) (simp add: dec_val_snoc digit_val_digit del: digit_val.simps)
  qed
qed

lemma str_nat_digits: "set (str_nat n) \<subseteq> set ''0123456789''"
proof (induction n rule: str_nat.induct)
  case (1 n)
  show ?case
  proof (cases "n < 10")
    case True
    then show ?thesis
      using digit_in_digits [of n] by (subst str_nat.simps) simp
  next
    case False
    with 1 show ?thesis
      using digit_in_digits [of "n mod 10"] by (subst str_nat.simps) simp
  qed
qed

lemma str_nat_length: "0 < k \<Longrightarrow> n < 10 ^ k \<Longrightarrow> length (str_nat n) \<le> k"
proof (induction n arbitrary: k rule: str_nat.induct)
  case (1 n)
  show ?case
  proof (cases "n < 10")
    case True
    with 1 show ?thesis
      by (subst str_nat.simps) simp
  next
    case False
    from False 1(3) have k: "1 < k"
      by (cases "k = 1") (use 1(2) in auto)
    then obtain j where j: "k = Suc j" "0 < j"
      by (cases k) auto
    from 1(3) j have "n div 10 < 10 ^ j"
      by (simp add: less_mult_imp_div_less mult.commute)
    with 1(1) [OF False j(2)] have "length (str_nat (n div 10)) \<le> j" .
    with False j show ?thesis
      by (subst str_nat.simps) simp
  qed
qed

lemma str_nat_nonempty: "str_nat n \<noteq> []"
  by (subst str_nat.simps) simp

lemma zfill_digits:
  assumes "cs \<noteq> []" and "set cs \<subseteq> set ''0123456789''"
  shows "zfill w cs = replicate (w - length cs) CHR ''0'' @ cs"
  using assms by (cases cs) auto

lemma dec_val_zeros: "dec_val (replicate k CHR ''0'' @ cs) = dec_val cs"
proof -
  have "foldl (\<lambda>a c. 10 * a + digit_val c) 0 (replicate k CHR ''0'') = 0"
    by (induction k) simp_all
  then show ?thesis
    by (simp add: dec_val_def)
qed

lemma candidate_nat:
  assumes "0 \<le> p"
  shows "candidate p = replicate (4 - length (str_nat (nat p))) CHR ''0'' @ str_nat (nat p)"
  using assms zfill_digits [OF str_nat_nonempty str_nat_digits]
  by (simp add: candidate_def str_def)

text \<open>
  C6. For \<open>p\<close> from 0 to 9999 the candidate \<open>str(p).zfill(4)\<close> has exactly four characters,
  all of them decimal digits, denotes \<open>p\<close>, and is \<open>str(p)\<close> with zeros put in front; 0, 42
  and 9999 give "0000", "0042" and "9999".
\<close>

theorem candidate_four_digits:
  assumes "0 \<le> p" and "p \<le> 9999"
  shows "length (candidate p) = 4
         \<and> set (candidate p) \<subseteq> set ''0123456789''
         \<and> int (dec_val (candidate p)) = p
         \<and> candidate p = replicate (4 - length (str p)) CHR ''0'' @ str p
         \<and> candidate 0 = ''0000'' \<and> candidate 42 = ''0042'' \<and> candidate 9999 = ''9999''"
proof -
  from assms have "nat p < 10 ^ 4" by simp
  then have len: "length (str_nat (nat p)) \<le> 4"
    by (intro str_nat_length) simp_all
  have c: "candidate p = replicate (4 - length (str_nat (nat p))) CHR ''0'' @ str_nat (nat p)"
    by (rule candidate_nat [OF assms(1)])
  have 1: "length (candidate p) = 4"
    using len by (simp add: c)
  have 2: "set (candidate p) \<subseteq> set ''0123456789''"
    using str_nat_digits [of "nat p"] by (auto simp: c)
  have 3: "int (dec_val (candidate p)) = p"
    using assms(1) by (simp add: c dec_val_zeros dec_val_str_nat)
  have 4: "candidate p = replicate (4 - length (str p)) CHR ''0'' @ str p"
    using assms(1) by (simp add: c str_def)
  have 5: "candidate 0 = ''0000''" "candidate 42 = ''0042''" "candidate 9999 = ''9999''"
    by (simp_all add: candidate_eval)
  from 1 2 3 4 5 show ?thesis by simp
qed

theorem candidate_four_digits_witness:
  "(0::int) \<le> 7 \<and> (7::int) \<le> 9999 \<and> candidate 7 = ''0007'' \<and> length (candidate 7) = 4
   \<and> int (dec_val (candidate 7)) = 7"
proof -
  have h: "(0::int) \<le> 7" "(7::int) \<le> 9999"
    by simp_all
  note t = candidate_four_digits [OF h]
  have a: "candidate 7 = ''0007''"
    by (simp add: candidate_eval)
  from t have b: "length (candidate 7) = 4"
    by (rule conjunct1)
  from t have c: "int (dec_val (candidate 7)) = 7"
    by (elim conjE)
  show ?thesis
    by (intro conjI h a b c)
qed



section \<open>The loop\<close>

lemma probes_append: "probes (xs @ ys) = probes xs @ probes ys"
  by (induction xs rule: probes.induct) simp_all

lemma founds_append: "founds (xs @ ys) = founds xs @ founds ys"
  by (induction xs rule: founds.induct) simp_all

lemma logged_append: "events s' = events s @ es \<Longrightarrow> logged s s' = es"
  by (simp add: logged_def)

lemma scan_stop:
  "stop_count s \<or> ctl i \<Longrightarrow>
   scan tr ctl (i # rest) s = (Inr (), logging Stopped (s\<lparr>stop_count := True\<rparr>))"
  by simp

lemma scan_raise:
  "\<not> stop_count s \<Longrightarrow> \<not> ctl i \<Longrightarrow>
   verify_pin tr (candidate i) (logging (Trying (candidate i)) s) = (Inl e, s2) \<Longrightarrow>
   scan tr ctl (i # rest) s = (Inl e, s2)"
  by simp

lemma scan_found:
  "\<not> stop_count s \<Longrightarrow> \<not> ctl i \<Longrightarrow>
   verify_pin tr (candidate i) (logging (Trying (candidate i)) s) = (Inr (Some True), s2) \<Longrightarrow>
   scan tr ctl (i # rest) s = (Inr (), (logging (Found (candidate i)) s2)\<lparr>pin := candidate i\<rparr>)"
  by simp

lemma scan_invalid:
  "\<not> stop_count s \<Longrightarrow> \<not> ctl i \<Longrightarrow>
   verify_pin tr (candidate i) (logging (Trying (candidate i)) s) = (Inr (Some False), s2) \<Longrightarrow>
   scan tr ctl (i # rest) s = scan tr ctl rest (logging (Invalid (candidate i)) s2)"
  by simp

lemma scan_unknown:
  "\<not> stop_count s \<Longrightarrow> \<not> ctl i \<Longrightarrow>
   verify_pin tr (candidate i) (logging (Trying (candidate i)) s) = (Inr None, s2) \<Longrightarrow>
   scan tr ctl (i # rest) s = scan tr ctl rest (logging (NoResponse (candidate i)) s2)"
  by simp

lemma verify_pin_after_trying:
  assumes "verify_pin tr p (logging (Trying p) s) = (r, s2)"
  shows "is_open s2 = is_open s" "stop_count s2 = stop_count s" "pin s2 = pin s"
    "events s2 = events s @ [Trying p]" "prefix (rx s) (rx s2)"
  using verify_pin_frame [OF assms] by (simp_all add: logging_def)

text \<open>One rule for every property of the loop: the six ways an iteration can go.\<close>

lemma scan_rule:
  assumes fin: "\<And>s. Q [] s (Inr (), s)"
    and stop: "\<And>i rest s. stop_count s \<or> ctl i \<Longrightarrow>
        Q (i # rest) s (Inr (), logging Stopped (s\<lparr>stop_count := True\<rparr>))"
    and exc: "\<And>i rest s e s2. \<not> stop_count s \<Longrightarrow> \<not> ctl i \<Longrightarrow>
        verify_pin tr (candidate i) (logging (Trying (candidate i)) s) = (Inl e, s2) \<Longrightarrow>
        Q (i # rest) s (Inl e, s2)"
    and found: "\<And>i rest s s2. \<not> stop_count s \<Longrightarrow> \<not> ctl i \<Longrightarrow>
        verify_pin tr (candidate i) (logging (Trying (candidate i)) s) = (Inr (Some True), s2) \<Longrightarrow>
        Q (i # rest) s (Inr (), (logging (Found (candidate i)) s2)\<lparr>pin := candidate i\<rparr>)"
    and invalid: "\<And>i rest s s2. \<not> stop_count s \<Longrightarrow> \<not> ctl i \<Longrightarrow>
        verify_pin tr (candidate i) (logging (Trying (candidate i)) s) = (Inr (Some False), s2) \<Longrightarrow>
        Q rest (logging (Invalid (candidate i)) s2)
          (scan tr ctl rest (logging (Invalid (candidate i)) s2)) \<Longrightarrow>
        Q (i # rest) s (scan tr ctl rest (logging (Invalid (candidate i)) s2))"
    and unknown: "\<And>i rest s s2. \<not> stop_count s \<Longrightarrow> \<not> ctl i \<Longrightarrow>
        verify_pin tr (candidate i) (logging (Trying (candidate i)) s) = (Inr None, s2) \<Longrightarrow>
        Q rest (logging (NoResponse (candidate i)) s2)
          (scan tr ctl rest (logging (NoResponse (candidate i)) s2)) \<Longrightarrow>
        Q (i # rest) s (scan tr ctl rest (logging (NoResponse (candidate i)) s2))"
  shows "Q cands s (scan tr ctl cands s)"
proof (induction cands arbitrary: s)
  case Nil
  show ?case by (simp add: fin)
next
  case (Cons i rest)
  show ?case
  proof (cases "stop_count s \<or> ctl i")
    case True
    then show ?thesis
      by (simp only: scan_stop [where ctl = ctl, OF True]) (rule stop [OF True])
  next
    case False
    then have n: "\<not> stop_count s" "\<not> ctl i" by simp_all
    obtain r s2 where v: "verify_pin tr (candidate i) (logging (Trying (candidate i)) s) = (r, s2)"
      by (cases "verify_pin tr (candidate i) (logging (Trying (candidate i)) s)")
    show ?thesis
    proof (cases r)
      case (Inl e)
      note w = v [unfolded Inl]
      show ?thesis
        by (simp only: scan_raise [where ctl = ctl, OF n w]) (rule exc [OF n w])
    next
      case (Inr valid)
      show ?thesis
      proof (cases valid)
        case None
        note w = v [unfolded Inr None]
        show ?thesis
          by (simp only: scan_unknown [where ctl = ctl, OF n w]) (rule unknown [OF n w Cons.IH])
      next
        case (Some b)
        show ?thesis
        proof (cases b)
          case True
          from v Inr Some True
          have w: "verify_pin tr (candidate i) (logging (Trying (candidate i)) s) = (Inr (Some True), s2)"
            by simp
          show ?thesis
            by (simp only: scan_found [where ctl = ctl, OF n w]) (rule found [OF n w])
        next
          case False
          from v Inr Some False
          have w: "verify_pin tr (candidate i) (logging (Trying (candidate i)) s) = (Inr (Some False), s2)"
            by simp
          show ?thesis
            by (simp only: scan_invalid [where ctl = ctl, OF n w]) (rule invalid [OF n w Cons.IH])
        qed
      qed
    qed
  qed
qed

lemma scan_frame:
  "is_open (snd (scan tr ctl cands s)) = is_open s
   \<and> prefix (rx s) (rx (snd (scan tr ctl cands s)))
   \<and> prefix (events s) (events (snd (scan tr ctl cands s)))"
proof (rule scan_rule [where Q = "\<lambda>cands s res. is_open (snd res) = is_open s
   \<and> prefix (rx s) (rx (snd res)) \<and> prefix (events s) (events (snd res))"], goal_cases)
  case (3 i rest s e s2)
  from verify_pin_after_trying [OF 3(3)] show ?case
    by simp
next
  case (4 i rest s s2)
  from verify_pin_after_trying [OF 4(3)] show ?case
    by (simp add: logging_def)
next
  case (5 i rest s s2)
  from verify_pin_after_trying [OF 5(3)] 5(4) show ?case
    by (auto simp: logging_def dest: append_prefixD elim: prefix_order.trans)
next
  case (6 i rest s s2)
  from verify_pin_after_trying [OF 6(3)] 6(4) show ?case
    by (auto simp: logging_def dest: append_prefixD elim: prefix_order.trans)
qed (simp_all add: logging_def)

lemma logged_self: "logged s s = []"
  by (simp add: logged_def)

lemma logged_step:
  assumes "events t = events s @ xs" and "prefix (events t) (events s')"
  shows "logged s s' = xs @ logged t s'"
proof -
  from assms(2) obtain ys where "events s' = events t @ ys"
    by (auto simp: prefix_def)
  with assms(1) show ?thesis
    by (simp add: logged_def)
qed

lemma scan_logged_step:
  assumes "events t = events s @ xs"
  shows "logged s (snd (scan tr ctl cands t)) = xs @ logged t (snd (scan tr ctl cands t))"
  using assms scan_frame [of tr ctl cands t] by (intro logged_step) simp_all

lemma after_verdict:
  assumes "verify_pin tr p (logging (Trying p) s) = (r, s2)"
  shows "events (logging e s2) = events s @ [Trying p, e]"
    "pin (logging e s2) = pin s" "stop_count (logging e s2) = stop_count s"
    "is_open (logging e s2) = is_open s"
  using verify_pin_after_trying [OF assms] by (simp_all add: logging_def)

lemma scan_flag: "stop_count (snd (scan tr (\<lambda>i. False) cands s)) = stop_count s"
proof (rule scan_rule [where Q = "\<lambda>cands s res. stop_count (snd res) = stop_count s"
      and ctl = "\<lambda>i. False"], goal_cases)
  case (3 i rest s e s2)
  from verify_pin_after_trying [OF 3(3)] show ?case by simp
next
  case (4 i rest s s2)
  from verify_pin_after_trying [OF 4(3)] show ?case by (simp add: logging_def)
next
  case (5 i rest s s2)
  from after_verdict [OF 5(3), of "Invalid (candidate i)"] 5(4) show ?case by simp
next
  case (6 i rest s s2)
  from after_verdict [OF 6(3), of "NoResponse (candidate i)"] 6(4) show ?case by simp
qed (simp_all add: logging_def)


section \<open>\<open>find_code\<close> around the loop\<close>

lemma find_code_unfold:
  "find_code tr ctl start stop s =
     (fst (find_code_except (find_code_try tr ctl start stop s)),
      close_port tr (snd (find_code_except (find_code_try tr ctl start stop s))))"
  by (simp add: find_code_def split: prod.split)

lemma open_port_frame:
  assumes "open_port tr s = (r, s1)"
  shows "pin s1 = pin s" "stop_count s1 = stop_count s" "rx s1 = rx s"
    "events s1 = events s @ logged s s1" "probes (logged s s1) = []"
    "founds (logged s s1) = []" "Stopped \<notin> set (logged s s1)"
  using assms
  by (auto simp: open_port_def logging_def logged_def split: if_splits prod.splits option.splits)

lemma except_frame:
  "pin (snd (find_code_except x)) = pin (snd x)"
  "stop_count (snd (find_code_except x)) = stop_count (snd x)"
  "rx (snd (find_code_except x)) = rx (snd x)"
  "is_open (snd (find_code_except x)) = is_open (snd x)"
  "events (snd (find_code_except x)) = events (snd x) @ logged (snd x) (snd (find_code_except x))"
  "probes (logged (snd x) (snd (find_code_except x))) = []"
  "founds (logged (snd x) (snd (find_code_except x))) = []"
  "Stopped \<notin> set (logged (snd x) (snd (find_code_except x)))"
  by (cases x rule: find_code_except.cases; simp add: logging_def logged_def)+

lemma close_port_frame:
  "pin (close_port tr t) = pin t" "stop_count (close_port tr t) = stop_count t"
  "rx (close_port tr t) = rx t"
  "events (close_port tr t) = events t @ logged t (close_port tr t)"
  "probes (logged t (close_port tr t)) = []" "founds (logged t (close_port tr t)) = []"
  "Stopped \<notin> set (logged t (close_port tr t))"
  by (simp_all add: close_port_def logging_def logged_def)

text \<open>
  What \<open>find_code\<close> adds to the loop: entries before and after the loop's own, none of
  them a probe, a find or a stop; \<open>pin\<close>, \<open>stop_count\<close> and \<open>rx\<close> are the loop's.
\<close>

lemma find_code_around_scan:
  assumes o: "open_port tr s = (Inr (), s1)"
  shows "\<exists>a b. logged s (snd (find_code tr ctl start stop s))
            = a @ logged s1 (snd (scan tr ctl [start..stop] s1)) @ b
          \<and> probes a = [] \<and> probes b = [] \<and> founds a = [] \<and> founds b = []
          \<and> Stopped \<notin> set a \<and> Stopped \<notin> set b"
    and "pin (snd (find_code tr ctl start stop s)) = pin (snd (scan tr ctl [start..stop] s1))"
    and "stop_count (snd (find_code tr ctl start stop s))
          = stop_count (snd (scan tr ctl [start..stop] s1))"
    and "rx (snd (find_code tr ctl start stop s)) = rx (snd (scan tr ctl [start..stop] s1))"
    and "fst (find_code tr ctl start stop s)
          = fst (find_code_except (scan tr ctl [start..stop] s1))"
proof -
  define res where "res = scan tr ctl [start..stop] s1"
  define s2 where "s2 = snd res"
  define s3 where "s3 = snd (find_code_except (fst res, s2))"
  define s4 where "s4 = close_port tr s3"
  have t: "find_code_try tr ctl start stop s = (fst res, s2)"
    by (simp add: find_code_try_def o res_def s2_def)
  have f: "find_code tr ctl start stop s = (fst (find_code_except (fst res, s2)), s4)"
    by (simp add: find_code_unfold t s3_def s4_def)
  from scan_frame [of tr ctl "[start..stop]" s1]
  obtain es where es: "events s2 = events s1 @ es"
    by (auto simp: prefix_def res_def s2_def)
  have e4: "events s4 = events s @ logged s s1 @ es @ logged s2 s3 @ logged s3 s4"
    using open_port_frame(4) [OF o] es except_frame(5) [of "(fst res, s2)"]
      close_port_frame(4) [of tr s3]
    by (simp add: s3_def s4_def)
  have l: "logged s s4 = logged s s1 @ logged s1 s2 @ (logged s2 s3 @ logged s3 s4)"
    using logged_append [OF e4] logged_append [OF es] by simp
  show "\<exists>a b. logged s (snd (find_code tr ctl start stop s))
            = a @ logged s1 (snd (scan tr ctl [start..stop] s1)) @ b
          \<and> probes a = [] \<and> probes b = [] \<and> founds a = [] \<and> founds b = []
          \<and> Stopped \<notin> set a \<and> Stopped \<notin> set b"
    apply (rule exI [of _ "logged s s1"])
    apply (rule exI [of _ "logged s2 s3 @ logged s3 s4"])
    using l open_port_frame(5-7) [OF o] except_frame(6-8) [of "(fst res, s2)"]
      close_port_frame(5-7) [of s3 tr]
    by (simp add: f res_def [symmetric] s2_def [symmetric] s3_def [symmetric]
        s4_def [symmetric] probes_append founds_append)
  show "pin (snd (find_code tr ctl start stop s)) = pin (snd (scan tr ctl [start..stop] s1))"
    by (simp add: f s4_def s3_def s2_def res_def close_port_frame except_frame)
  show "stop_count (snd (find_code tr ctl start stop s))
          = stop_count (snd (scan tr ctl [start..stop] s1))"
    by (simp add: f s4_def s3_def s2_def res_def close_port_frame except_frame)
  show "rx (snd (find_code tr ctl start stop s)) = rx (snd (scan tr ctl [start..stop] s1))"
    by (simp add: f s4_def s3_def s2_def res_def close_port_frame except_frame)
  show "fst (find_code tr ctl start stop s)
          = fst (find_code_except (scan tr ctl [start..stop] s1))"
    by (simp add: f s2_def res_def)
qed

lemma find_code_open_raises:
  assumes o: "open_port tr s = (Inl e, s1)"
  shows "probes (logged s (snd (find_code tr ctl start stop s))) = []"
    and "founds (logged s (snd (find_code tr ctl start stop s))) = []"
    and "pin (snd (find_code tr ctl start stop s)) = pin s"
    and "stop_count (snd (find_code tr ctl start stop s)) = stop_count s"
    and "rx (snd (find_code tr ctl start stop s)) = rx s"
proof -
  define s3 where "s3 = snd (find_code_except (Inl e :: exn + unit, s1))"
  define s4 where "s4 = close_port tr s3"
  have f: "snd (find_code tr ctl start stop s) = s4"
    by (simp add: find_code_unfold find_code_try_def o s3_def s4_def)
  have e4: "events s4 = events s @ logged s s1 @ logged s1 s3 @ logged s3 s4"
    using open_port_frame(4) [OF o] except_frame(5) [of "(Inl e, s1)"]
      close_port_frame(4) [of tr s3]
    by (simp add: s3_def s4_def)
  have l: "logged s s4 = logged s s1 @ logged s1 s3 @ logged s3 s4"
    by (rule logged_append [OF e4])
  show "probes (logged s (snd (find_code tr ctl start stop s))) = []"
    using open_port_frame(5) [OF o] except_frame(6) [of "(Inl e, s1)"] close_port_frame(5) [of s3 tr]
    by (simp add: f l probes_append s3_def [symmetric] s4_def [symmetric])
  show "founds (logged s (snd (find_code tr ctl start stop s))) = []"
    using open_port_frame(6) [OF o] except_frame(7) [of "(Inl e, s1)"] close_port_frame(6) [of s3 tr]
    by (simp add: f l founds_append s3_def [symmetric] s4_def [symmetric])
  show "pin (snd (find_code tr ctl start stop s)) = pin s"
    by (simp add: f s4_def s3_def close_port_frame except_frame open_port_frame [OF o])
  show "stop_count (snd (find_code tr ctl start stop s)) = stop_count s"
    by (simp add: f s4_def s3_def close_port_frame except_frame open_port_frame [OF o])
  show "rx (snd (find_code tr ctl start stop s)) = rx s"
    by (simp add: f s4_def s3_def close_port_frame except_frame open_port_frame [OF o])
qed

lemma open_port_result:
  obtains (raises) e s1 where "open_port tr s = (Inl e, s1)"
  | (opens) s1 where "open_port tr s = (Inr (), s1)"
  by (cases "open_port tr s"; cases "fst (open_port tr s)") auto

section \<open>The receive buffer\<close>

text \<open>
  C9. \<open>read_response\<close> appends the text that was waiting to \<open>rx\<close> and returns the whole of
  \<open>rx\<close>; with nothing waiting \<open>rx\<close> is unchanged. Nothing shortens \<open>rx\<close>: what it held
  before \<open>read_response\<close>, \<open>verify_pin\<close> or a whole \<open>find_code\<close> is a prefix of what it
  holds after. So once \<open>rx\<close> contains "Hash valid", every \<open>verify_pin\<close> that returns
  returns \<open>True\<close>, whatever the device sends.
\<close>

theorem rx_append_only:
  "(sp_read tr (port s) = (Inr new, d) \<longrightarrow>
      read_response tr s = (Inr (rx s @ new), s\<lparr>port := d, rx := rx s @ new\<rparr>))
   \<and> (sp_read tr (port s) = (Inr [], d) \<longrightarrow>
      fst (read_response tr s) = Inr (rx s) \<and> rx (snd (read_response tr s)) = rx s)
   \<and> prefix (rx s) (rx (snd (read_response tr s)))
   \<and> prefix (rx s) (rx (snd (verify_pin tr p s)))
   \<and> prefix (rx s) (rx (snd (find_code tr ctl start stop s)))
   \<and> (sublist ''Hash valid'' (rx s) \<and> verify_pin tr p s = (Inr v, s') \<longrightarrow> v = Some True)"
proof -
  have 1: "prefix (rx s) (rx (snd (read_response tr s)))"
    by (simp add: read_response_def split: prod.split sum.split)
  have 2: "prefix (rx s) (rx (snd (verify_pin tr p s)))"
    using verify_pin_frame [of tr p s "fst (verify_pin tr p s)" "snd (verify_pin tr p s)"]
    by simp
  have 3: "prefix (rx s) (rx (snd (find_code tr ctl start stop s)))"
  proof (cases rule: open_port_result [of tr s])
    case (raises e s1)
    from find_code_open_raises(5) [OF this] show ?thesis by simp
  next
    case (opens s1)
    from find_code_around_scan(4) [OF this] scan_frame [of tr ctl "[start..stop]" s1]
      open_port_frame(3) [OF opens]
    show ?thesis by simp
  qed
  have 4: "v = Some True" if "sublist ''Hash valid'' (rx s)" and "verify_pin tr p s = (Inr v, s')"
  proof -
    from verify_pin_frame [OF that(2)] obtain zs where "rx s' = rx s @ zs"
      by (auto simp: prefix_def)
    moreover from that(1) obtain ps ss where "rx s = ps @ ''Hash valid'' @ ss"
      by (auto simp: sublist_def)
    ultimately have "rx s' = ps @ ''Hash valid'' @ (ss @ zs)"
      by simp
    then have "sublist ''Hash valid'' (rx s')"
      unfolding sublist_def by blast
    with verify_pin_classifies [OF that(2)] show ?thesis by simp
  qed
  from 1 2 3 4 show ?thesis
    by (simp add: read_response_def)
qed

theorem rx_append_only_witness:
  "sublist ''Hash valid'' (rx ((init [] True)\<lparr>rx := ''Hash valid''\<rparr>))
   \<and> verify_pin (device lock42) ''0000'' ((init [] True)\<lparr>rx := ''Hash valid''\<rparr>)
       = (Inr (Some True), (init [] True)\<lparr>rx := ''Hash validHash invalid''\<rparr>)
   \<and> sp_read (device lock42) (port ((init [] True)\<lparr>rx := ''Hash valid''\<rparr>)) = (Inr [], [])
   \<and> read_response (device lock42) ((init [] True)\<lparr>rx := ''Hash valid''\<rparr>)
       = (Inr ''Hash valid'', (init [] True)\<lparr>rx := ''Hash valid''\<rparr>)"
proof -
  let ?s = "(init [] True)\<lparr>rx := ''Hash valid''\<rparr> :: string finder"
  have h1: "sublist ''Hash valid'' (rx ?s)"
    by (simp add: init_def)
  obtain v where run: "verify_pin (device lock42) ''0000'' ?s
      = (Inr v, (init [] True)\<lparr>rx := ''Hash validHash invalid''\<rparr>)"
    by (simp add: verify_device lock42_def newline_def init_def)
  have h2: "sp_read (device lock42) (port ?s) = (Inr [], [])"
    by (simp add: device_def init_def)
  note t = rx_append_only [of "device lock42" ?s "[]" "[]" "''0000''" _ _ _ v
      "(init [] True)\<lparr>rx := ''Hash validHash invalid''\<rparr>"]
  from t h1 run have v: "v = Some True" by blast
  from t h2 have "read_response (device lock42) ?s = (Inr (rx ?s @ []), ?s\<lparr>port := [], rx := rx ?s @ []\<rparr>)"
    by blast
  then have r: "read_response (device lock42) ?s = (Inr ''Hash valid'', ?s)"
    by (simp add: init_def)
  from h1 run v h2 r show ?thesis by simp
qed

section \<open>The cancellation flag\<close>




section \<open>Whole scans\<close>

text \<open>
  A run of the loop through candidates that are all answered, none of them accepted:
  \<open>P\<close> is what the buffer and the device satisfy between two probes, \<open>verdict\<close> what
  \<open>verify_pin\<close> returns for a PIN then.
\<close>

lemma scan_run:
  fixes verdict :: "string \<Rightarrow> bool option"
  assumes inv: "\<And>u p. P (rx u) (port u) \<Longrightarrow>
      \<exists>u'. verify_pin tr p u = (Inr (verdict p), u') \<and> (verdict p \<noteq> Some True \<longrightarrow> P (rx u') (port u'))"
    and "P (rx s) (port s)" and "\<not> stop_count s"
    and "\<forall>i \<in> set xs. verdict (candidate i) \<noteq> Some True"
  shows "\<exists>s'. scan tr (\<lambda>i. False) (xs @ ys) s = scan tr (\<lambda>i. False) ys s'
           \<and> P (rx s') (port s') \<and> \<not> stop_count s' \<and> pin s' = pin s \<and> is_open s' = is_open s
           \<and> events s' = events s @ concat (map (\<lambda>i. [Trying (candidate i),
                if verdict (candidate i) = Some False then Invalid (candidate i)
                else NoResponse (candidate i)]) xs)"
  using assms(2-4)
proof (induction xs arbitrary: s)
  case Nil
  then show ?case
    by (intro exI [of _ s]) simp
next
  case (Cons i xs)
  let ?c = "candidate i"
  let ?e = "if verdict ?c = Some False then Invalid ?c else NoResponse ?c"
  from Cons.prems(1) have "P (rx (logging (Trying ?c) s)) (port (logging (Trying ?c) s))"
    by (simp add: logging_def)
  from inv [OF this, of ?c] obtain u where
    v: "verify_pin tr ?c (logging (Trying ?c) s) = (Inr (verdict ?c), u)"
    and "verdict ?c \<noteq> Some True \<longrightarrow> P (rx u) (port u)"
    by blast
  moreover from Cons.prems(3) have nt: "verdict ?c \<noteq> Some True" by simp
  ultimately have Pu: "P (rx u) (port u)" by simp
  note a = after_verdict [OF v, of ?e]
  have n: "\<not> stop_count s" "\<not> (\<lambda>i. False) i"
    using Cons.prems(2) by simp_all
  have step: "scan tr (\<lambda>i. False) ((i # xs) @ ys) s = scan tr (\<lambda>i. False) (xs @ ys) (logging ?e u)"
  proof (cases "verdict ?c")
    case None
    with v have "verify_pin tr ?c (logging (Trying ?c) s) = (Inr None, u)" by simp
    from scan_unknown [where ctl = "\<lambda>i. False", OF n this] None show ?thesis by simp
  next
    case (Some b)
    with nt have "verdict ?c = Some False" by simp
    with v have "verify_pin tr ?c (logging (Trying ?c) s) = (Inr (Some False), u)" by simp
    from scan_invalid [where ctl = "\<lambda>i. False", OF n this] \<open>verdict ?c = Some False\<close>
    show ?thesis by simp
  qed
  have "P (rx (logging ?e u)) (port (logging ?e u))"
    using Pu by (simp add: logging_def)
  moreover have "\<not> stop_count (logging ?e u)"
    using a(3) Cons.prems(2) by simp
  moreover have "\<forall>i \<in> set xs. verdict (candidate i) \<noteq> Some True"
    using Cons.prems(3) by simp
  ultimately obtain s' where s':
    "scan tr (\<lambda>i. False) (xs @ ys) (logging ?e u) = scan tr (\<lambda>i. False) ys s'"
    "P (rx s') (port s')" "\<not> stop_count s'" "pin s' = pin (logging ?e u)"
    "is_open s' = is_open (logging ?e u)"
    "events s' = events (logging ?e u) @ concat (map (\<lambda>i. [Trying (candidate i),
        if verdict (candidate i) = Some False then Invalid (candidate i)
        else NoResponse (candidate i)]) xs)"
    using Cons.IH [of "logging ?e u"] by blast
  show ?case
    apply (rule exI [of _ s'])
    using step s' a by simp
qed

lemma upto_0_5: "[0..5::int] = [0, 1, 2, 3, 4, 5]"
  by (simp add: upto_rec1)

lemma candidates_0_5:
  "map candidate [0, 1, 2, 3, 4, 5] = [''0000'', ''0001'', ''0002'', ''0003'', ''0004'', ''0005'']"
  by (simp add: candidate_eval)

lemma probes_run:
  "probes (concat (map (\<lambda>i. [Trying (candidate i), if c i then Invalid (candidate i)
      else NoResponse (candidate i)]) xs)) = map candidate xs"
  by (induction xs) simp_all

lemma founds_run:
  "founds (concat (map (\<lambda>i. [Trying (candidate i), if c i then Invalid (candidate i)
      else NoResponse (candidate i)]) xs)) = []"
  by (induction xs) simp_all

lemma stopped_run:
  "Stopped \<notin> set (concat (map (\<lambda>i. [Trying (candidate i), if c i then Invalid (candidate i)
      else NoResponse (candidate i)]) xs))"
  by (induction xs) simp_all

lemma find_code_exhausts:
  assumes inv: "\<And>u p. P (rx u) (port u) \<Longrightarrow>
      \<exists>u'. verify_pin tr p u = (Inr None, u') \<and> P (rx u') (port u')"
    and o: "open_port tr s = (Inr (), s1)" and P1: "P (rx s1) (port s1)"
    and ns: "\<not> stop_count s"
  shows "fst (find_code_try tr (\<lambda>i. False) start stop s) = Inr ()"
    and "logged s1 (snd (find_code_try tr (\<lambda>i. False) start stop s))
          = concat (map (\<lambda>i. [Trying (candidate i), NoResponse (candidate i)]) [start..stop])"
    and "fst (find_code tr (\<lambda>i. False) start stop s) = None"
    and "probes (logged s (snd (find_code tr (\<lambda>i. False) start stop s)))
          = map candidate [start..stop]"
    and "founds (logged s (snd (find_code tr (\<lambda>i. False) start stop s))) = []"
    and "Stopped \<notin> set (logged s (snd (find_code tr (\<lambda>i. False) start stop s)))"
    and "pin (snd (find_code tr (\<lambda>i. False) start stop s)) = pin s"
proof -
  let ?run = "concat (map (\<lambda>i. [Trying (candidate i),
      if (\<lambda>p. None :: bool option) (candidate i) = Some False then Invalid (candidate i)
      else NoResponse (candidate i)]) [start..stop])"
  have inv': "\<exists>u'. verify_pin tr p u = (Inr ((\<lambda>p. None) p), u')
      \<and> ((\<lambda>p. None :: bool option) p \<noteq> Some True \<longrightarrow> P (rx u') (port u'))"
    if "P (rx u) (port u)" for u p
    using inv [OF that, of p] by simp
  from ns open_port_frame(2) [OF o] have ns1: "\<not> stop_count s1" by simp
  have "\<forall>i \<in> set [start..stop]. (\<lambda>p. None :: bool option) (candidate i) \<noteq> Some True"
    by simp
  from scan_run [of P tr "\<lambda>p. None" s1 "[start..stop]" "[]", OF inv' P1 ns1 this]
  obtain s2 where s2: "scan tr (\<lambda>i. False) [start..stop] s1 = (Inr (), s2)"
    "pin s2 = pin s1" "events s2 = events s1 @ ?run"
    by auto
  have t: "find_code_try tr (\<lambda>i. False) start stop s = (Inr (), s2)"
    by (simp add: find_code_try_def o s2(1))
  have l: "logged s1 s2 = ?run"
    by (rule logged_append [OF s2(3)])
  note around = find_code_around_scan [OF o, of "\<lambda>i. False" start stop]
  from around(1) obtain a b where ab:
    "logged s (snd (find_code tr (\<lambda>i. False) start stop s)) = a @ logged s1 s2 @ b"
    "probes a = []" "probes b = []" "founds a = []" "founds b = []"
    "Stopped \<notin> set a" "Stopped \<notin> set b"
    by (auto simp: s2(1))
  show "fst (find_code_try tr (\<lambda>i. False) start stop s) = Inr ()"
    by (simp add: t)
  show "logged s1 (snd (find_code_try tr (\<lambda>i. False) start stop s))
          = concat (map (\<lambda>i. [Trying (candidate i), NoResponse (candidate i)]) [start..stop])"
    by (simp add: t l)
  show "fst (find_code tr (\<lambda>i. False) start stop s) = None"
    by (simp add: around(5) s2(1))
  show "probes (logged s (snd (find_code tr (\<lambda>i. False) start stop s)))
          = map candidate [start..stop]"
    using ab(2,3) probes_run [of "\<lambda>i. False" "[start..stop]"]
    by (simp add: ab(1) l probes_append)
  show "founds (logged s (snd (find_code tr (\<lambda>i. False) start stop s))) = []"
    using ab(4,5) founds_run [of "\<lambda>i. False" "[start..stop]"]
    by (simp add: ab(1) l founds_append)
  show "Stopped \<notin> set (logged s (snd (find_code tr (\<lambda>i. False) start stop s)))"
    using ab(6,7) stopped_run [of "\<lambda>i. False" "[start..stop]"]
    by (simp add: ab(1) l)
  show "pin (snd (find_code tr (\<lambda>i. False) start stop s)) = pin s"
    by (simp add: around(2) s2(1,2) open_port_frame(1) [OF o])
qed

text \<open>
  C4. When \<open>verify_pin\<close> returns \<open>None\<close> for a candidate, the loop logs the warning and goes
  on with the rest of the range: the same PIN is not sent again. With a transport under
  which every \<open>verify_pin\<close> returns \<open>None\<close> (\<open>P\<close> holds of buffer and device between two
  probes and every probe keeps it), \<open>find_code(0, 5)\<close> tries "0000" to "0005", each once and
  in this order, finds nothing, is not stopped, raises nothing, leaves \<open>pin\<close> as it was and
  closes the port.
\<close>

theorem find_code_inconclusive:
  "(\<not> stop_count t \<and> \<not> ctl i
      \<and> verify_pin tr (candidate i) (logging (Trying (candidate i)) t) = (Inr None, t2) \<longrightarrow>
      scan tr ctl (i # rest) t = scan tr ctl rest (logging (NoResponse (candidate i)) t2))
   \<and> ((\<forall>u p. P (rx u) (port u) \<longrightarrow>
          (\<exists>u'. verify_pin tr p u = (Inr None, u') \<and> P (rx u') (port u')))
        \<and> open_port tr s = (Inr (), s1) \<and> P (rx s1) (port s1) \<and> \<not> stop_count s \<longrightarrow>
      fst (find_code_try tr (\<lambda>i. False) 0 5 s) = Inr ()
      \<and> logged s1 (snd (find_code_try tr (\<lambda>i. False) 0 5 s))
          = [Trying ''0000'', NoResponse ''0000'', Trying ''0001'', NoResponse ''0001'',
             Trying ''0002'', NoResponse ''0002'', Trying ''0003'', NoResponse ''0003'',
             Trying ''0004'', NoResponse ''0004'', Trying ''0005'', NoResponse ''0005'']
      \<and> fst (find_code tr (\<lambda>i. False) 0 5 s) = None
      \<and> probes (logged s (snd (find_code tr (\<lambda>i. False) 0 5 s)))
          = [''0000'', ''0001'', ''0002'', ''0003'', ''0004'', ''0005'']
      \<and> founds (logged s (snd (find_code tr (\<lambda>i. False) 0 5 s))) = []
      \<and> Stopped \<notin> set (logged s (snd (find_code tr (\<lambda>i. False) 0 5 s)))
      \<and> pin (snd (find_code tr (\<lambda>i. False) 0 5 s)) = pin s
      \<and> \<not> is_open (snd (find_code tr (\<lambda>i. False) 0 5 s)))"
proof (intro conjI impI)
  assume "\<not> stop_count t \<and> \<not> ctl i
    \<and> verify_pin tr (candidate i) (logging (Trying (candidate i)) t) = (Inr None, t2)"
  then show "scan tr ctl (i # rest) t = scan tr ctl rest (logging (NoResponse (candidate i)) t2)"
    by simp
next
  assume h: "(\<forall>u p. P (rx u) (port u) \<longrightarrow>
          (\<exists>u'. verify_pin tr p u = (Inr None, u') \<and> P (rx u') (port u')))
        \<and> open_port tr s = (Inr (), s1) \<and> P (rx s1) (port s1) \<and> \<not> stop_count s"
  then have inv: "\<exists>u'. verify_pin tr p u = (Inr None, u') \<and> P (rx u') (port u')"
    if "P (rx u) (port u)" for u p
    using that by blast
  from h have o: "open_port tr s = (Inr (), s1)" and P1: "P (rx s1) (port s1)"
    and ns: "\<not> stop_count s"
    by simp_all
  note e = find_code_exhausts [of P tr s s1, OF inv o P1 ns, of 0 5]
  show "fst (find_code_try tr (\<lambda>i. False) 0 5 s) = Inr ()"
    by (rule e(1))
  show "logged s1 (snd (find_code_try tr (\<lambda>i. False) 0 5 s))
          = [Trying ''0000'', NoResponse ''0000'', Trying ''0001'', NoResponse ''0001'',
             Trying ''0002'', NoResponse ''0002'', Trying ''0003'', NoResponse ''0003'',
             Trying ''0004'', NoResponse ''0004'', Trying ''0005'', NoResponse ''0005'']"
    using candidates_0_5 by (simp add: e(2) upto_0_5)
  show "fst (find_code tr (\<lambda>i. False) 0 5 s) = None"
    by (rule e(3))
  show "probes (logged s (snd (find_code tr (\<lambda>i. False) 0 5 s)))
          = [''0000'', ''0001'', ''0002'', ''0003'', ''0004'', ''0005'']"
    by (simp only: e(4) upto_0_5 candidates_0_5)
  show "founds (logged s (snd (find_code tr (\<lambda>i. False) 0 5 s))) = []"
    by (rule e(5))
  show "Stopped \<notin> set (logged s (snd (find_code tr (\<lambda>i. False) 0 5 s)))"
    by (rule e(6))
  show "pin (snd (find_code tr (\<lambda>i. False) 0 5 s)) = pin s"
    by (rule e(7))
  show "\<not> is_open (snd (find_code tr (\<lambda>i. False) 0 5 s))"
    by (simp add: find_code_unfold close_port_closed)
qed

theorem find_code_inconclusive_witness:
  "open_port (device (\<lambda>c. [])) (init [] False)
     = (Inr (), logging Opened ((init [] False)\<lparr>port := [], is_open := True\<rparr>))
   \<and> \<not> stop_count (init [] False :: string finder)
   \<and> fst (find_code (device (\<lambda>c. [])) (\<lambda>i. False) 0 5 (init [] False)) = None
   \<and> probes (logged (init [] False) (snd (find_code (device (\<lambda>c. [])) (\<lambda>i. False) 0 5 (init [] False))))
       = [''0000'', ''0001'', ''0002'', ''0003'', ''0004'', ''0005'']
   \<and> pin (snd (find_code (device (\<lambda>c. [])) (\<lambda>i. False) 0 5 (init [] False))) = ''0000''"
proof -
  let ?tr = "device (\<lambda>c. [])"
  let ?s = "init [] False :: string finder"
  let ?s1 = "logging Opened (?s\<lparr>port := [], is_open := True\<rparr>)"
  let ?P = "\<lambda>r d. r = ([] :: string) \<and> d = ([] :: string)"
  have inv: "\<forall>u p. ?P (rx u) (port u) \<longrightarrow>
      (\<exists>u'. verify_pin ?tr p u = (Inr None, u') \<and> ?P (rx u') (port u'))"
    by (simp add: verify_device)
  have o: "open_port ?tr ?s = (Inr (), ?s1)"
    by (simp add: open_port_def device_def init_def)
  have P1: "?P (rx ?s1) (port ?s1)"
    by (simp add: logging_def init_def)
  have ns: "\<not> stop_count ?s"
    by (simp add: init_def)
  note t = find_code_inconclusive [where tr = ?tr and P = ?P and s = ?s and ?s1.0 = ?s1,
      THEN conjunct2, rule_format, OF conjI [OF inv conjI [OF o conjI [OF P1 ns]]]]
  from t have 3: "fst (find_code ?tr (\<lambda>i. False) 0 5 ?s) = None"
    by blast
  from t have 4: "probes (logged ?s (snd (find_code ?tr (\<lambda>i. False) 0 5 ?s)))
       = [''0000'', ''0001'', ''0002'', ''0003'', ''0004'', ''0005'']"
    by blast
  from t have "pin (snd (find_code ?tr (\<lambda>i. False) 0 5 ?s)) = pin ?s"
    by blast
  then have 5: "pin (snd (find_code ?tr (\<lambda>i. False) 0 5 ?s)) = ''0000''"
    by (simp add: init_def)
  show ?thesis
    by (intro conjI o ns 3 4 5)
qed

lemma upto_around:
  assumes "start \<le> j" and "j \<le> stop"
  shows "[start..stop] = [start..j - 1] @ j # [j + 1..stop]"
  using assms by (rule upto_split3)







section \<open>Failures of the transport\<close>

lemma open_port_opens: "open_port tr s = (Inr (), s1) \<Longrightarrow> is_open s1"
  by (auto simp: open_port_def logging_def split: if_splits prod.splits option.splits)

text \<open>\<open>verify_pin\<close> raises what the writing raises, and what the reading raises after it.\<close>

lemma verify_pin_raises:
  assumes "fst (sp_write tr (''TpPvVerifyPin('' @ p @ '')'' @ newline) (port u)) = Some e
    \<or> (fst (sp_write tr (''TpPvVerifyPin('' @ p @ '')'' @ newline) (port u)) = None
       \<and> fst (sp_read tr (snd (sp_write tr (''TpPvVerifyPin('' @ p @ '')'' @ newline) (port u))))
           = Inl e)"
  shows "fst (verify_pin tr p u) = Inl e"
  using assms
  by (auto simp: verify_pin_def send_command_def read_response_def
      split: prod.splits option.splits sum.splits)

text \<open>
  A run of the loop through candidates none of which is accepted, whatever else
  \<open>verify_pin\<close> returns for them.
\<close>

lemma scan_until:
  assumes inv: "\<And>u i. P (rx u) (port u) \<Longrightarrow> i \<in> set xs \<Longrightarrow>
      \<exists>v u'. verify_pin tr (candidate i) u = (Inr v, u') \<and> v \<noteq> Some True \<and> P (rx u') (port u')"
    and "P (rx s) (port s)" and "\<not> stop_count s"
  shows "\<exists>s' es. scan tr (\<lambda>i. False) (xs @ ys) s = scan tr (\<lambda>i. False) ys s'
           \<and> P (rx s') (port s') \<and> \<not> stop_count s' \<and> pin s' = pin s \<and> is_open s' = is_open s
           \<and> events s' = events s @ es \<and> probes es = map candidate xs \<and> founds es = []
           \<and> Stopped \<notin> set es"
  using assms
proof (induction xs arbitrary: s)
  case Nil
  then show ?case
    by (intro exI [of _ s] exI [of _ "[]"]) simp
next
  case (Cons i xs)
  let ?c = "candidate i"
  from Cons.prems(2) have "P (rx (logging (Trying ?c) s)) (port (logging (Trying ?c) s))"
    by (simp add: logging_def)
  from Cons.prems(1) [OF this, of i] obtain v u where
    v: "verify_pin tr ?c (logging (Trying ?c) s) = (Inr v, u)"
    and nt: "v \<noteq> Some True" and Pu: "P (rx u) (port u)"
    by auto
  define e where "e = (if v = Some False then Invalid ?c else NoResponse ?c)"
  note a = after_verdict [OF v, of e]
  have n: "\<not> stop_count s" "\<not> (\<lambda>i. False) i"
    using Cons.prems(3) by simp_all
  have step: "scan tr (\<lambda>i. False) ((i # xs) @ ys) s = scan tr (\<lambda>i. False) (xs @ ys) (logging e u)"
  proof (cases v)
    case None
    with v have "verify_pin tr ?c (logging (Trying ?c) s) = (Inr None, u)" by simp
    from scan_unknown [where ctl = "\<lambda>i. False", OF n this] None show ?thesis
      by (simp add: e_def)
  next
    case (Some b)
    with nt have f: "v = Some False" by simp
    with v have "verify_pin tr ?c (logging (Trying ?c) s) = (Inr (Some False), u)" by simp
    from scan_invalid [where ctl = "\<lambda>i. False", OF n this] f show ?thesis
      by (simp add: e_def)
  qed
  have "P (rx (logging e u)) (port (logging e u))"
    using Pu by (simp add: logging_def)
  moreover have "\<not> stop_count (logging e u)"
    using a(3) Cons.prems(3) by simp
  moreover have "\<exists>v u'. verify_pin tr (candidate k) w = (Inr v, u') \<and> v \<noteq> Some True
      \<and> P (rx u') (port u')" if "P (rx w) (port w)" and "k \<in> set xs" for w k
    using Cons.prems(1) [of w k] that by simp
  ultimately obtain s' es where s':
    "scan tr (\<lambda>i. False) (xs @ ys) (logging e u) = scan tr (\<lambda>i. False) ys s'"
    "P (rx s') (port s')" "\<not> stop_count s'" "pin s' = pin (logging e u)"
    "is_open s' = is_open (logging e u)"
    "events s' = events (logging e u) @ es" "probes es = map candidate xs" "founds es = []"
    "Stopped \<notin> set es"
    using Cons.IH [of "logging e u"] by blast
  have 1: "scan tr (\<lambda>i. False) ((i # xs) @ ys) s = scan tr (\<lambda>i. False) ys s'"
    by (simp only: step s'(1))
  have 2: "pin s' = pin s" "is_open s' = is_open s"
    using s'(4,5) a(2,4) by simp_all
  have 3: "events s' = events s @ ([Trying ?c, e] @ es)"
    using s'(6) a(1) by simp
  have 4: "probes ([Trying ?c, e] @ es) = map candidate (i # xs)"
    "founds ([Trying ?c, e] @ es) = []" "Stopped \<notin> set ([Trying ?c, e] @ es)"
    using s'(7-9) by (simp_all add: e_def)
  show ?case
    apply (rule exI [of _ s'])
    apply (rule exI [of _ "[Trying ?c, e] @ es"])
    by (intro conjI 1 2 3 4 s'(2,3))
qed

lemma scan_probe_raises:
  assumes n: "\<not> stop_count t" "\<not> ctl i"
    and f: "fst (sp_write tr (''TpPvVerifyPin('' @ candidate i @ '')'' @ newline) (port t)) = Some e
      \<or> (fst (sp_write tr (''TpPvVerifyPin('' @ candidate i @ '')'' @ newline) (port t)) = None
         \<and> fst (sp_read tr (snd (sp_write tr (''TpPvVerifyPin('' @ candidate i @ '')'' @ newline)
              (port t)))) = Inl e)"
  shows "fst (scan tr ctl (i # rest) t) = Inl e"
    and "events (snd (scan tr ctl (i # rest) t)) = events t @ [Trying (candidate i)]"
    and "pin (snd (scan tr ctl (i # rest) t)) = pin t"
    and "is_open (snd (scan tr ctl (i # rest) t)) = is_open t"
proof -
  have "port (logging (Trying (candidate i)) t) = port t"
    by (simp add: logging_def)
  with f have "fst (verify_pin tr (candidate i) (logging (Trying (candidate i)) t)) = Inl e"
    by (intro verify_pin_raises) simp
  then obtain u where v: "verify_pin tr (candidate i) (logging (Trying (candidate i)) t) = (Inl e, u)"
    by (cases "verify_pin tr (candidate i) (logging (Trying (candidate i)) t)") simp
  note sc = scan_raise [where ctl = ctl, OF n v, of rest]
  note fr = verify_pin_after_trying [OF v]
  show "fst (scan tr ctl (i # rest) t) = Inl e"
    by (simp only: sc fst_conv)
  show "events (snd (scan tr ctl (i # rest) t)) = events t @ [Trying (candidate i)]"
    by (simp only: sc snd_conv fr(4))
  show "pin (snd (scan tr ctl (i # rest) t)) = pin t"
    by (simp only: sc snd_conv fr(3))
  show "is_open (snd (scan tr ctl (i # rest) t)) = is_open t"
    by (simp only: sc snd_conv fr(1))
qed

lemma find_code_caught:
  assumes "e = SerialException \<or> e = OtherException"
    and "find_code_try tr ctl start stop s = (Inl e, t)"
  shows "find_code tr ctl start stop s =
      (None, close_port tr
         (logging (if e = SerialException then SerialError else UnexpectedError) t))"
  using assms by (auto simp: find_code_unfold)

lemma find_code_fails_at:
  fixes tr :: "'d transport"
  assumes e: "e = SerialException \<or> e = OtherException"
    and o: "open_port tr s = (Inr (), s1)" and P1: "P (rx s1) (port s1)"
    and ns: "\<not> stop_count s" and range: "start \<le> k" "k \<le> stop"
    and inv: "\<And>u i. P (rx u) (port u) \<Longrightarrow> start \<le> i \<Longrightarrow> i < k \<Longrightarrow>
      \<exists>v u'. verify_pin tr (candidate i) u = (Inr v, u') \<and> v \<noteq> Some True \<and> P (rx u') (port u')"
    and f: "\<And>u :: 'd finder. P (rx u) (port u) \<Longrightarrow>
      fst (sp_write tr (''TpPvVerifyPin('' @ candidate k @ '')'' @ newline) (port u)) = Some e
      \<or> (fst (sp_write tr (''TpPvVerifyPin('' @ candidate k @ '')'' @ newline) (port u)) = None
         \<and> fst (sp_read tr (snd (sp_write tr (''TpPvVerifyPin('' @ candidate k @ '')'' @ newline)
              (port u)))) = Inl e)"
  shows "fst (find_code tr (\<lambda>i. False) start stop s) = None"
    and "\<exists>es. logged s (snd (find_code tr (\<lambda>i. False) start stop s))
          = es @ [Trying (candidate k),
                  if e = SerialException then SerialError else UnexpectedError, Closed]"
    and "probes (logged s (snd (find_code tr (\<lambda>i. False) start stop s)))
          = map candidate [start..k]"
    and "pin (snd (find_code tr (\<lambda>i. False) start stop s)) = pin s"
proof -
  let ?err = "if e = SerialException then SerialError else UnexpectedError"
  from ns open_port_frame(2) [OF o] have ns1: "\<not> stop_count s1" by simp
  have inv': "\<exists>v u'. verify_pin tr (candidate i) u = (Inr v, u') \<and> v \<noteq> Some True
      \<and> P (rx u') (port u')" if "P (rx u) (port u)" and "i \<in> set [start..k - 1]" for u i
    using inv [of u i] that by simp
  from scan_until [of P "[start..k - 1]" tr s1 "k # [k + 1..stop]", OF inv' P1 ns1]
  obtain s2 es where s2:
    "scan tr (\<lambda>i. False) [start..stop] s1 = scan tr (\<lambda>i. False) (k # [k + 1..stop]) s2"
    "P (rx s2) (port s2)" "\<not> stop_count s2" "pin s2 = pin s1" "is_open s2 = is_open s1"
    "events s2 = events s1 @ es" "probes es = map candidate [start..k - 1]"
    by (auto simp: upto_around [OF range])
  have n: "\<not> stop_count s2" "\<not> (\<lambda>i. False) k"
    using s2(3) by simp_all
  note r = scan_probe_raises [where ctl = "\<lambda>i. False", OF n f [OF s2(2)], of "[k + 1..stop]"]
  define s3 where "s3 = snd (scan tr (\<lambda>i. False) [start..stop] s1)"
  have t: "find_code_try tr (\<lambda>i. False) start stop s = (Inl e, s3)"
    using r(1) by (simp add: find_code_try_def o s3_def s2(1) prod_eq_iff)
  have s3: "events s3 = events s1 @ es @ [Trying (candidate k)]" "pin s3 = pin s"
    "is_open s3"
    using r(2-4) s2(4-6) open_port_frame(1) [OF o] open_port_opens [OF o]
    by (simp_all add: s3_def s2(1))
  note fc = find_code_caught [OF e t]
  have ev: "events (snd (find_code tr (\<lambda>i. False) start stop s))
      = events s @ ((logged s s1 @ es) @ [Trying (candidate k), ?err, Closed])"
    using s3(1,3) open_port_frame(4) [OF o]
    by (simp add: fc close_port_def logging_def)
  note l = logged_append [OF ev]
  show "fst (find_code tr (\<lambda>i. False) start stop s) = None"
    by (simp add: fc)
  show "\<exists>es. logged s (snd (find_code tr (\<lambda>i. False) start stop s))
          = es @ [Trying (candidate k), ?err, Closed]"
    using l by blast
  have "probes (logged s (snd (find_code tr (\<lambda>i. False) start stop s)))
      = map candidate [start..k - 1] @ [candidate k]"
    using open_port_frame(5) [OF o] s2(7) by (simp add: l probes_append)
  also have "\<dots> = map candidate [start..k]"
    using range(1) by (simp add: upto_rec2 [of start k])
  finally show "probes (logged s (snd (find_code tr (\<lambda>i. False) start stop s)))
      = map candidate [start..k]" .
  show "pin (snd (find_code tr (\<lambda>i. False) start stop s)) = pin s"
    using s3(2) by (simp add: fc close_port_frame(1) logging_def)
qed

text \<open>
  C7. An exception \<open>e\<close> of the transport (a \<open>SerialException\<close>, or any other \<open>Exception\<close>)
  is logged as an error and does not leave \<open>find_code\<close>, which returns with the port
  closed.
  \<^item> When the opening raises \<open>e\<close>, \<open>find_code\<close> returns with the state it was called in, but
    for the device and the error entry: \<open>close_port\<close> finds the port not open, does nothing
    and raises nothing.
  \<^item> When the writing of a probe raises \<open>e\<close>, or its reading does, the loop ends there with
    \<open>e\<close>, whatever is left of the range.
  \<^item> When the scan reaches candidate \<open>k\<close> with no candidate before it accepted, and the
    probe of \<open>k\<close> fails in the transport, \<open>find_code\<close> returns; the log ends with the probe
    of \<open>k\<close>, the error entry and the closing of the port; the candidates from \<open>start\<close> to
    \<open>k\<close> are all that was tried, and \<open>pin\<close> is what it was.
  \<^item> Whatever raises \<open>e\<close> in the \<open>try\<close>, the handlers log the error and the port is closed.
\<close>

theorem find_code_transport_failure:
  fixes tr :: "'d transport"
  assumes "e = SerialException \<or> e = OtherException"
  shows "(\<not> is_open s \<and> sp_open tr (port s) = (Some e, d) \<longrightarrow>
            find_code tr ctl start stop s =
              (None, logging (if e = SerialException then SerialError else UnexpectedError)
                 (s\<lparr>port := d\<rparr>)))
         \<and> (\<not> stop_count t \<and> \<not> ctl i
             \<and> (fst (sp_write tr (''TpPvVerifyPin('' @ candidate i @ '')'' @ newline) (port t)) = Some e
                \<or> (fst (sp_write tr (''TpPvVerifyPin('' @ candidate i @ '')'' @ newline) (port t)) = None
                   \<and> fst (sp_read tr (snd (sp_write tr
                        (''TpPvVerifyPin('' @ candidate i @ '')'' @ newline) (port t)))) = Inl e)) \<longrightarrow>
            fst (scan tr ctl (i # rest) t) = Inl e
            \<and> events (snd (scan tr ctl (i # rest) t)) = events t @ [Trying (candidate i)])
         \<and> (open_port tr s = (Inr (), s1) \<and> P (rx s1) (port s1) \<and> \<not> stop_count s
             \<and> start \<le> k \<and> k \<le> stop
             \<and> (\<forall>u j. P (rx u) (port u) \<and> start \<le> j \<and> j < k \<longrightarrow>
                  (\<exists>v u'. verify_pin tr (candidate j) u = (Inr v, u') \<and> v \<noteq> Some True
                     \<and> P (rx u') (port u')))
             \<and> (\<forall>u :: 'd finder. P (rx u) (port u) \<longrightarrow>
                  fst (sp_write tr (''TpPvVerifyPin('' @ candidate k @ '')'' @ newline) (port u)) = Some e
                  \<or> (fst (sp_write tr (''TpPvVerifyPin('' @ candidate k @ '')'' @ newline) (port u)) = None
                     \<and> fst (sp_read tr (snd (sp_write tr
                          (''TpPvVerifyPin('' @ candidate k @ '')'' @ newline) (port u)))) = Inl e)) \<longrightarrow>
            fst (find_code tr (\<lambda>i. False) start stop s) = None
            \<and> (\<exists>es. logged s (snd (find_code tr (\<lambda>i. False) start stop s))
                  = es @ [Trying (candidate k),
                          if e = SerialException then SerialError else UnexpectedError, Closed])
            \<and> probes (logged s (snd (find_code tr (\<lambda>i. False) start stop s)))
                  = map candidate [start..k]
            \<and> pin (snd (find_code tr (\<lambda>i. False) start stop s)) = pin s
            \<and> \<not> is_open (snd (find_code tr (\<lambda>i. False) start stop s)))
         \<and> (find_code_try tr ctl start stop s = (Inl e, s2) \<longrightarrow>
            find_code tr ctl start stop s =
              (None, close_port tr
                 (logging (if e = SerialException then SerialError else UnexpectedError) s2)))
         \<and> level_of (if e = SerialException then SerialError else UnexpectedError) = Error"
proof (intro conjI impI)
  assume h: "\<not> is_open s \<and> sp_open tr (port s) = (Some e, d)"
  then have "find_code_try tr ctl start stop s = (Inl e, s\<lparr>port := d\<rparr>)"
    by (simp add: find_code_try_def open_port_def)
  from find_code_caught [OF assms this] h
  show "find_code tr ctl start stop s =
      (None, logging (if e = SerialException then SerialError else UnexpectedError) (s\<lparr>port := d\<rparr>))"
    by (simp add: close_port_def logging_def)
next
  assume h: "\<not> stop_count t \<and> \<not> ctl i
    \<and> (fst (sp_write tr (''TpPvVerifyPin('' @ candidate i @ '')'' @ newline) (port t)) = Some e
       \<or> (fst (sp_write tr (''TpPvVerifyPin('' @ candidate i @ '')'' @ newline) (port t)) = None
          \<and> fst (sp_read tr (snd (sp_write tr
               (''TpPvVerifyPin('' @ candidate i @ '')'' @ newline) (port t)))) = Inl e))"
  then have n: "\<not> stop_count t" "\<not> ctl i" by simp_all
  from h have f: "fst (sp_write tr (''TpPvVerifyPin('' @ candidate i @ '')'' @ newline) (port t)) = Some e
       \<or> (fst (sp_write tr (''TpPvVerifyPin('' @ candidate i @ '')'' @ newline) (port t)) = None
          \<and> fst (sp_read tr (snd (sp_write tr
               (''TpPvVerifyPin('' @ candidate i @ '')'' @ newline) (port t)))) = Inl e)"
    by (rule conjunct2 [OF conjunct2])
  note r = scan_probe_raises [where ctl = ctl, OF n f, of rest]
  show "fst (scan tr ctl (i # rest) t) = Inl e"
    by (rule r(1))
  show "events (snd (scan tr ctl (i # rest) t)) = events t @ [Trying (candidate i)]"
    by (rule r(2))
next
  assume h: "open_port tr s = (Inr (), s1) \<and> P (rx s1) (port s1) \<and> \<not> stop_count s
     \<and> start \<le> k \<and> k \<le> stop
     \<and> (\<forall>u j. P (rx u) (port u) \<and> start \<le> j \<and> j < k \<longrightarrow>
          (\<exists>v u'. verify_pin tr (candidate j) u = (Inr v, u') \<and> v \<noteq> Some True
             \<and> P (rx u') (port u')))
     \<and> (\<forall>u :: 'd finder. P (rx u) (port u) \<longrightarrow>
          fst (sp_write tr (''TpPvVerifyPin('' @ candidate k @ '')'' @ newline) (port u)) = Some e
          \<or> (fst (sp_write tr (''TpPvVerifyPin('' @ candidate k @ '')'' @ newline) (port u)) = None
             \<and> fst (sp_read tr (snd (sp_write tr
                  (''TpPvVerifyPin('' @ candidate k @ '')'' @ newline) (port u)))) = Inl e))"
  then have o: "open_port tr s = (Inr (), s1)" and P1: "P (rx s1) (port s1)"
    and ns: "\<not> stop_count s" and range: "start \<le> k" "k \<le> stop"
    by simp_all
  from h have inv: "\<exists>v u'. verify_pin tr (candidate j) u = (Inr v, u') \<and> v \<noteq> Some True
      \<and> P (rx u') (port u')" if "P (rx u) (port u)" "start \<le> j" "j < k" for u j
    using that by blast
  from h have f: "fst (sp_write tr (''TpPvVerifyPin('' @ candidate k @ '')'' @ newline) (port u)) = Some e
      \<or> (fst (sp_write tr (''TpPvVerifyPin('' @ candidate k @ '')'' @ newline) (port u)) = None
         \<and> fst (sp_read tr (snd (sp_write tr
              (''TpPvVerifyPin('' @ candidate k @ '')'' @ newline) (port u)))) = Inl e)"
    if "P (rx u) (port u)" for u :: "'d finder"
    using that by blast
  note r = find_code_fails_at [of e tr s s1 P start k stop, OF assms o P1 ns range inv f]
  show "fst (find_code tr (\<lambda>i. False) start stop s) = None"
    by (rule r(1))
  show "\<exists>es. logged s (snd (find_code tr (\<lambda>i. False) start stop s))
      = es @ [Trying (candidate k),
              if e = SerialException then SerialError else UnexpectedError, Closed]"
    by (rule r(2))
  show "probes (logged s (snd (find_code tr (\<lambda>i. False) start stop s))) = map candidate [start..k]"
    by (rule r(3))
  show "pin (snd (find_code tr (\<lambda>i. False) start stop s)) = pin s"
    by (rule r(4))
  show "\<not> is_open (snd (find_code tr (\<lambda>i. False) start stop s))"
    by (simp add: find_code_unfold close_port_closed)
next
  assume "find_code_try tr ctl start stop s = (Inl e, s2)"
  from find_code_caught [OF assms this]
  show "find_code tr ctl start stop s =
      (None, close_port tr
         (logging (if e = SerialException then SerialError else UnexpectedError) s2))" .
next
  from assms show "level_of (if e = SerialException then SerialError else UnexpectedError) = Error"
    by auto
qed

theorem find_code_transport_failure_witness:
  "\<not> is_open (init [] False :: string finder)
   \<and> sp_open no_port (port (init [] False)) = (Some SerialException, [])
   \<and> find_code no_port (\<lambda>i. False) 0 100 (init [] False) =
       (None, \<lparr>port = [], is_open = False, stop_count = False, pin = ''0000'', rx = [],
               events = [SerialError]\<rparr>)
   \<and> open_port (unplug_at (''TpPvVerifyPin(0003)'' @ newline)) (init [] False)
       = (Inr (), logging Opened ((init [] False)\<lparr>port := [], is_open := True\<rparr>))
   \<and> fst (sp_write (unplug_at (''TpPvVerifyPin(0003)'' @ newline))
        (''TpPvVerifyPin('' @ candidate 3 @ '')'' @ newline) []) = Some SerialException
   \<and> fst (find_code (unplug_at (''TpPvVerifyPin(0003)'' @ newline)) (\<lambda>i. False) 0 10
        (init [] False)) = None
   \<and> (\<exists>es. logged (init [] False)
         (snd (find_code (unplug_at (''TpPvVerifyPin(0003)'' @ newline)) (\<lambda>i. False) 0 10
           (init [] False)))
        = es @ [Trying (candidate 3), SerialError, Closed])
   \<and> probes (logged (init [] False)
         (snd (find_code (unplug_at (''TpPvVerifyPin(0003)'' @ newline)) (\<lambda>i. False) 0 10
           (init [] False))))
        = map candidate [0..3]"
proof -
  let ?tr = "unplug_at (''TpPvVerifyPin(0003)'' @ newline)"
  let ?s = "init [] False :: string finder"
  let ?s1 = "logging Opened (?s\<lparr>port := [], is_open := True\<rparr>)"
  let ?P = "\<lambda>r d. r = ([] :: string) \<and> d = ([] :: string)"
  have e: "SerialException = SerialException \<or> SerialException = OtherException"
    by simp
  have h: "\<not> is_open ?s \<and> sp_open no_port (port ?s) = (Some SerialException, [])"
    by (simp add: init_def no_port_def)
  note t1 = find_code_transport_failure [OF e, where tr = no_port and s = ?s and d = "[]"
      and ctl = "\<lambda>i. False" and start = 0 and stop = 100, THEN conjunct1, rule_format, OF h]
  have 1: "find_code no_port (\<lambda>i. False) 0 100 ?s =
       (None, \<lparr>port = [], is_open = False, stop_count = False, pin = ''0000'', rx = [],
               events = [SerialError]\<rparr>)"
    using t1 by (simp add: init_def logging_def)
  have c: "candidate 0 = ''0000''" "candidate 1 = ''0001''" "candidate 2 = ''0002''"
    "candidate 3 = ''0003''"
    by (simp_all add: candidate_eval)
  have o: "open_port ?tr ?s = (Inr (), ?s1)"
    by (simp add: open_port_def unplug_at_def init_def)
  have P1: "?P (rx ?s1) (port ?s1)"
    by (simp add: logging_def init_def)
  have ns: "\<not> stop_count ?s"
    by (simp add: init_def)
  have r: "(0::int) \<le> 3" "(3::int) \<le> 10"
    by simp_all
  have inv: "\<forall>u j. ?P (rx u) (port u) \<and> 0 \<le> j \<and> j < 3 \<longrightarrow>
      (\<exists>v u'. verify_pin ?tr (candidate j) u = (Inr v, u') \<and> v \<noteq> Some True
         \<and> ?P (rx u') (port u'))"
  proof (intro allI impI)
    fix u :: "string finder" and j :: int
    assume a: "?P (rx u) (port u) \<and> 0 \<le> j \<and> j < 3"
    then have "j = 0 \<or> j = 1 \<or> j = 2" by arith
    then have "verify_pin ?tr (candidate j) u = (Inr None, u)"
      using a
      by (elim disjE)
        (simp_all add: c verify_pin_def send_command_def read_response_def unplug_at_def
          newline_def)
    with a show "\<exists>v u'. verify_pin ?tr (candidate j) u = (Inr v, u') \<and> v \<noteq> Some True
         \<and> ?P (rx u') (port u')"
      by simp
  qed
  have w: "fst (sp_write ?tr (''TpPvVerifyPin('' @ candidate 3 @ '')'' @ newline) d) = Some SerialException"
    for d
    by (simp add: c unplug_at_def)
  then have f: "\<forall>u :: string finder. ?P (rx u) (port u) \<longrightarrow>
      fst (sp_write ?tr (''TpPvVerifyPin('' @ candidate 3 @ '')'' @ newline) (port u)) = Some SerialException
      \<or> (fst (sp_write ?tr (''TpPvVerifyPin('' @ candidate 3 @ '')'' @ newline) (port u)) = None
         \<and> fst (sp_read ?tr (snd (sp_write ?tr
              (''TpPvVerifyPin('' @ candidate 3 @ '')'' @ newline) (port u)))) = Inl SerialException)"
    by blast
  note t2 = find_code_transport_failure [OF e, where tr = ?tr and s = ?s and ?s1.0 = ?s1
      and P = ?P and start = 0 and k = 3 and stop = 10,
      THEN conjunct2, THEN conjunct2, THEN conjunct1, rule_format,
      OF conjI [OF o conjI [OF P1 conjI [OF ns conjI [OF r(1) conjI [OF r(2) conjI [OF inv f]]]]]]]
  from t2 have 2: "fst (find_code ?tr (\<lambda>i. False) 0 10 ?s) = None"
    by blast
  from t2 have 3: "\<exists>es. logged ?s (snd (find_code ?tr (\<lambda>i. False) 0 10 ?s))
        = es @ [Trying (candidate 3), SerialError, Closed]"
    by simp
  from t2 have 4: "probes (logged ?s (snd (find_code ?tr (\<lambda>i. False) 0 10 ?s)))
        = map candidate [0..3]"
    by blast
  show ?thesis
    using h 1 o w [of "[]"] 2 3 4 by blast
qed

section \<open>The stored PIN\<close>

text \<open>
  The loop changes \<open>pin\<close> only where a \<open>verify_pin\<close> has returned \<open>True\<close>: for the
  candidate it was called with, and on the buffer the loop ends with.
\<close>

lemma scan_pin:
  "(founds (logged s (snd (scan tr ctl cands s))) = [] \<and> pin (snd (scan tr ctl cands s)) = pin s)
   \<or> (\<exists>i \<in> set cands. \<exists>u u'. verify_pin tr (candidate i) u = (Inr (Some True), u')
        \<and> rx u' = rx (snd (scan tr ctl cands s))
        \<and> founds (logged s (snd (scan tr ctl cands s))) = [candidate i]
        \<and> pin (snd (scan tr ctl cands s)) = candidate i
        \<and> fst (scan tr ctl cands s) = Inr ()
        \<and> Stopped \<notin> set (logged s (snd (scan tr ctl cands s))))"
proof (rule scan_rule [where Q = "\<lambda>cands s res.
    (founds (logged s (snd res)) = [] \<and> pin (snd res) = pin s)
    \<or> (\<exists>i \<in> set cands. \<exists>u u'. verify_pin tr (candidate i) u = (Inr (Some True), u')
         \<and> rx u' = rx (snd res)
         \<and> founds (logged s (snd res)) = [candidate i] \<and> pin (snd res) = candidate i
         \<and> fst res = Inr () \<and> Stopped \<notin> set (logged s (snd res)))"], goal_cases)
  case (1 s)
  show ?case by (simp add: logged_self)
next
  case (2 i rest s)
  show ?case by (simp add: logged_def logging_def)
next
  case (3 i rest s e s2)
  from verify_pin_after_trying [OF 3(3)] show ?case
    by (simp add: logged_def)
next
  case (4 i rest s s2)
  let ?res = "(Inr () :: exn + unit, (logging (Found (candidate i)) s2)\<lparr>pin := candidate i\<rparr>)"
  from verify_pin_after_trying [OF 4(3)]
  have "founds (logged s (snd ?res)) = [candidate i]" "pin (snd ?res) = candidate i"
    "fst ?res = Inr ()" "Stopped \<notin> set (logged s (snd ?res))" "rx s2 = rx (snd ?res)"
    by (simp_all add: logged_def logging_def)
  with 4(3) have "\<exists>u u'. verify_pin tr (candidate i) u = (Inr (Some True), u')
         \<and> rx u' = rx (snd ?res)
         \<and> founds (logged s (snd ?res)) = [candidate i] \<and> pin (snd ?res) = candidate i
         \<and> fst ?res = Inr () \<and> Stopped \<notin> set (logged s (snd ?res))"
    by blast
  then show ?case by simp
next
  case (5 i rest s s2)
  note a = after_verdict [OF 5(3), of "Invalid (candidate i)"]
  from 5(4) show ?case
    by (auto simp: scan_logged_step [OF a(1)] a(2))
next
  case (6 i rest s s2)
  note a = after_verdict [OF 6(3), of "NoResponse (candidate i)"]
  from 6(4) show ?case
    by (auto simp: scan_logged_step [OF a(1)] a(2))
qed

lemma scan_stopped_pin:
  assumes "stop_count s"
  shows "pin (snd (scan tr ctl cands s)) = pin s"
proof (cases cands)
  case Nil
  then show ?thesis by simp
next
  case (Cons i rest)
  from assms have "stop_count s \<or> ctl i" by simp
  from scan_stop [where ctl = ctl, OF this] Cons show ?thesis
    by (simp add: logging_def)
qed

lemma find_code_none_valid:
  assumes o: "open_port tr s = (Inr (), s1)" and P1: "P (rx s1) (port s1)"
    and ns: "\<not> stop_count s"
    and inv: "\<And>u j. P (rx u) (port u) \<Longrightarrow> start \<le> j \<Longrightarrow> j \<le> stop \<Longrightarrow>
      \<exists>v u'. verify_pin tr (candidate j) u = (Inr v, u') \<and> v \<noteq> Some True \<and> P (rx u') (port u')"
  shows "pin (snd (find_code tr (\<lambda>i. False) start stop s)) = pin s"
    and "founds (logged s (snd (find_code tr (\<lambda>i. False) start stop s))) = []"
    and "probes (logged s (snd (find_code tr (\<lambda>i. False) start stop s)))
          = map candidate [start..stop]"
proof -
  from ns open_port_frame(2) [OF o] have ns1: "\<not> stop_count s1" by simp
  have inv': "\<exists>v u'. verify_pin tr (candidate i) u = (Inr v, u') \<and> v \<noteq> Some True
      \<and> P (rx u') (port u')" if "P (rx u) (port u)" and "i \<in> set [start..stop]" for u i
    using inv [of u i] that by simp
  from scan_until [of P "[start..stop]" tr s1 "[]", OF inv' P1 ns1]
  obtain s2 es where s2: "scan tr (\<lambda>i. False) [start..stop] s1 = (Inr (), s2)"
    "pin s2 = pin s1" "events s2 = events s1 @ es" "probes es = map candidate [start..stop]"
    "founds es = []"
    by auto
  note l = logged_append [OF s2(3)]
  note around = find_code_around_scan [OF o, of "\<lambda>i. False" start stop]
  from around(1) obtain a b where ab:
    "logged s (snd (find_code tr (\<lambda>i. False) start stop s)) = a @ logged s1 s2 @ b"
    "probes a = []" "probes b = []" "founds a = []" "founds b = []"
    by (auto simp: s2(1))
  show "pin (snd (find_code tr (\<lambda>i. False) start stop s)) = pin s"
    by (simp add: around(2) s2(1,2) open_port_frame(1) [OF o])
  show "founds (logged s (snd (find_code tr (\<lambda>i. False) start stop s))) = []"
    using ab(4,5) s2(5) by (simp add: ab(1) l founds_append)
  show "probes (logged s (snd (find_code tr (\<lambda>i. False) start stop s)))
      = map candidate [start..stop]"
    using ab(2,3) s2(4) by (simp add: ab(1) l probes_append)
qed

lemma find_code_pin_cases:
  "(founds (logged s (snd (find_code tr ctl start stop s))) = []
      \<and> pin (snd (find_code tr ctl start stop s)) = pin s)
    \<or> (\<exists>i u u'. start \<le> i \<and> i \<le> stop
          \<and> verify_pin tr (candidate i) u = (Inr (Some True), u')
          \<and> rx u' = rx (snd (find_code tr ctl start stop s))
          \<and> sublist ''Hash valid'' (rx (snd (find_code tr ctl start stop s)))
          \<and> founds (logged s (snd (find_code tr ctl start stop s))) = [candidate i]
          \<and> pin (snd (find_code tr ctl start stop s)) = candidate i
          \<and> fst (find_code_try tr ctl start stop s) = Inr ()
          \<and> Stopped \<notin> set (logged s (snd (find_code tr ctl start stop s))))"
proof (cases rule: open_port_result [of tr s])
  case (raises e s1)
  from find_code_open_raises(2,3) [OF this] show ?thesis by simp
next
  case (opens s1)
  note around = find_code_around_scan [OF opens, of ctl start stop]
  from around(1) obtain a b where ab:
    "logged s (snd (find_code tr ctl start stop s))
       = a @ logged s1 (snd (scan tr ctl [start..stop] s1)) @ b"
    "founds a = []" "founds b = []" "Stopped \<notin> set a" "Stopped \<notin> set b"
    by blast
  have t: "find_code_try tr ctl start stop s = scan tr ctl [start..stop] s1"
    by (simp add: find_code_try_def opens)
  from scan_pin [of s1 tr ctl "[start..stop]"] show ?thesis
  proof
    assume "founds (logged s1 (snd (scan tr ctl [start..stop] s1))) = []
      \<and> pin (snd (scan tr ctl [start..stop] s1)) = pin s1"
    with ab around(2) open_port_frame(1) [OF opens] show ?thesis
      by (simp add: founds_append)
  next
    assume "\<exists>i \<in> set [start..stop]. \<exists>u u'.
        verify_pin tr (candidate i) u = (Inr (Some True), u')
      \<and> rx u' = rx (snd (scan tr ctl [start..stop] s1))
      \<and> founds (logged s1 (snd (scan tr ctl [start..stop] s1))) = [candidate i]
      \<and> pin (snd (scan tr ctl [start..stop] s1)) = candidate i
      \<and> fst (scan tr ctl [start..stop] s1) = Inr ()
      \<and> Stopped \<notin> set (logged s1 (snd (scan tr ctl [start..stop] s1)))"
    then obtain i u u' where i: "start \<le> i" "i \<le> stop"
      "verify_pin tr (candidate i) u = (Inr (Some True), u')"
      "rx u' = rx (snd (scan tr ctl [start..stop] s1))"
      "founds (logged s1 (snd (scan tr ctl [start..stop] s1))) = [candidate i]"
      "pin (snd (scan tr ctl [start..stop] s1)) = candidate i"
      "fst (scan tr ctl [start..stop] s1) = Inr ()"
      "Stopped \<notin> set (logged s1 (snd (scan tr ctl [start..stop] s1)))"
      by auto
    from verify_pin_classifies [OF i(3)] have v: "sublist ''Hash valid'' (rx u')"
      by (simp split: if_splits)
    from i ab around(2,4) t v have "start \<le> i \<and> i \<le> stop
        \<and> verify_pin tr (candidate i) u = (Inr (Some True), u')
        \<and> rx u' = rx (snd (find_code tr ctl start stop s))
        \<and> sublist ''Hash valid'' (rx (snd (find_code tr ctl start stop s)))
        \<and> founds (logged s (snd (find_code tr ctl start stop s))) = [candidate i]
        \<and> pin (snd (find_code tr ctl start stop s)) = candidate i
        \<and> fst (find_code_try tr ctl start stop s) = Inr ()
        \<and> Stopped \<notin> set (logged s (snd (find_code tr ctl start stop s)))"
      by (simp add: founds_append)
    then show ?thesis by blast
  qed
qed

lemma find_code_keeps_flag: "stop_count (snd (find_code tr (\<lambda>i. False) start stop s)) = stop_count s"
proof (cases rule: open_port_result [of tr s])
  case (raises e s1)
  from find_code_open_raises(4) [OF this] show ?thesis .
next
  case (opens s1)
  from find_code_around_scan(3) [OF opens, of "\<lambda>i. False" start stop]
    scan_flag [of tr "[start..stop]" s1] open_port_frame(2) [OF opens]
  show ?thesis by simp
qed

lemma find_code_stopped_pin:
  assumes "stop_count s"
  shows "pin (snd (find_code tr ctl start stop s)) = pin s"
proof (cases rule: open_port_result [of tr s])
  case (raises e s1)
  from find_code_open_raises(3) [OF this] show ?thesis .
next
  case (opens s1)
  from assms open_port_frame(2) [OF opens] have "stop_count s1" by simp
  from scan_stopped_pin [OF this, of tr ctl "[start..stop]"]
    find_code_around_scan(2) [OF opens, of ctl start stop] open_port_frame(1) [OF opens]
  show ?thesis by simp
qed

text \<open>
  C10. \<open>find_code\<close> changes \<open>pin\<close> only for a candidate that \<open>verify_pin\<close> has classified as
  valid.
  \<^item> Either no find is logged and \<open>pin\<close> is what it was; or \<open>verify_pin\<close> has returned
    \<open>True\<close> for a candidate of the range, on the buffer \<open>find_code\<close> ends with (which
    contains "Hash valid"), \<open>pin\<close> is that candidate, the \<open>try\<close> raised nothing and the scan
    was not stopped.
  \<^item> In the loop, a verdict \<open>True\<close> stores the candidate and ends the loop; any other
    verdict goes on with the rest of the range and \<open>pin\<close> untouched.
  \<^item> With a transport under which no candidate of the range is classified as valid, all
    of them are tried and \<open>pin\<close> is what it was; so it is when the flag was set before the
    call, and when the \<open>try\<close> raised an exception.
  \<^item> With nobody setting it from outside, \<open>stop_count\<close> is after the call what it was
    before. The initial \<open>pin\<close> is "0000", which is also the candidate for 0.
\<close>

theorem find_code_pin_and_flag:
  "((founds (logged s (snd (find_code tr ctl start stop s))) = []
      \<and> pin (snd (find_code tr ctl start stop s)) = pin s)
    \<or> (\<exists>i u u'. start \<le> i \<and> i \<le> stop
          \<and> verify_pin tr (candidate i) u = (Inr (Some True), u')
          \<and> rx u' = rx (snd (find_code tr ctl start stop s))
          \<and> sublist ''Hash valid'' (rx (snd (find_code tr ctl start stop s)))
          \<and> founds (logged s (snd (find_code tr ctl start stop s))) = [candidate i]
          \<and> pin (snd (find_code tr ctl start stop s)) = candidate i
          \<and> fst (find_code_try tr ctl start stop s) = Inr ()
          \<and> Stopped \<notin> set (logged s (snd (find_code tr ctl start stop s)))))
   \<and> (\<not> stop_count t \<and> \<not> ctl i
       \<and> verify_pin tr (candidate i) (logging (Trying (candidate i)) t) = (Inr (Some True), t2) \<longrightarrow>
       scan tr ctl (i # rest) t
         = (Inr (), (logging (Found (candidate i)) t2)\<lparr>pin := candidate i\<rparr>))
   \<and> (\<not> stop_count t \<and> \<not> ctl i \<and> v \<noteq> Some True
       \<and> verify_pin tr (candidate i) (logging (Trying (candidate i)) t) = (Inr v, t2) \<longrightarrow>
       (\<exists>t3. scan tr ctl (i # rest) t = scan tr ctl rest t3 \<and> pin t3 = pin t))
   \<and> (open_port tr s = (Inr (), s1) \<and> P (rx s1) (port s1) \<and> \<not> stop_count s
       \<and> (\<forall>u j. P (rx u) (port u) \<and> start \<le> j \<and> j \<le> stop \<longrightarrow>
            (\<exists>v u'. verify_pin tr (candidate j) u = (Inr v, u') \<and> v \<noteq> Some True
               \<and> P (rx u') (port u'))) \<longrightarrow>
       pin (snd (find_code tr (\<lambda>i. False) start stop s)) = pin s
       \<and> founds (logged s (snd (find_code tr (\<lambda>i. False) start stop s))) = []
       \<and> probes (logged s (snd (find_code tr (\<lambda>i. False) start stop s)))
           = map candidate [start..stop])
   \<and> (stop_count s \<longrightarrow> pin (snd (find_code tr ctl start stop s)) = pin s)
   \<and> (fst (find_code_try tr ctl start stop s) = Inl e \<longrightarrow>
       pin (snd (find_code tr ctl start stop s)) = pin s)
   \<and> stop_count (snd (find_code tr (\<lambda>i. False) start stop s)) = stop_count s
   \<and> pin (init d opened) = ''0000'' \<and> candidate 0 = ''0000''"
proof (intro conjI impI)
  show "(founds (logged s (snd (find_code tr ctl start stop s))) = []
      \<and> pin (snd (find_code tr ctl start stop s)) = pin s)
    \<or> (\<exists>i u u'. start \<le> i \<and> i \<le> stop
          \<and> verify_pin tr (candidate i) u = (Inr (Some True), u')
          \<and> rx u' = rx (snd (find_code tr ctl start stop s))
          \<and> sublist ''Hash valid'' (rx (snd (find_code tr ctl start stop s)))
          \<and> founds (logged s (snd (find_code tr ctl start stop s))) = [candidate i]
          \<and> pin (snd (find_code tr ctl start stop s)) = candidate i
          \<and> fst (find_code_try tr ctl start stop s) = Inr ()
          \<and> Stopped \<notin> set (logged s (snd (find_code tr ctl start stop s))))"
    by (rule find_code_pin_cases)
next
  assume "\<not> stop_count t \<and> \<not> ctl i
    \<and> verify_pin tr (candidate i) (logging (Trying (candidate i)) t) = (Inr (Some True), t2)"
  then show "scan tr ctl (i # rest) t
      = (Inr (), (logging (Found (candidate i)) t2)\<lparr>pin := candidate i\<rparr>)"
    by simp
next
  assume h: "\<not> stop_count t \<and> \<not> ctl i \<and> v \<noteq> Some True
    \<and> verify_pin tr (candidate i) (logging (Trying (candidate i)) t) = (Inr v, t2)"
  then have w: "verify_pin tr (candidate i) (logging (Trying (candidate i)) t) = (Inr v, t2)"
    by simp
  let ?e = "if v = Some False then Invalid (candidate i) else NoResponse (candidate i)"
  from h have "scan tr ctl (i # rest) t = scan tr ctl rest (logging ?e t2)"
    by simp
  moreover have "pin (logging ?e t2) = pin t"
    by (rule after_verdict(2) [OF w])
  ultimately show "\<exists>t3. scan tr ctl (i # rest) t = scan tr ctl rest t3 \<and> pin t3 = pin t"
    by blast
next
  assume h: "open_port tr s = (Inr (), s1) \<and> P (rx s1) (port s1) \<and> \<not> stop_count s
       \<and> (\<forall>u j. P (rx u) (port u) \<and> start \<le> j \<and> j \<le> stop \<longrightarrow>
            (\<exists>v u'. verify_pin tr (candidate j) u = (Inr v, u') \<and> v \<noteq> Some True
               \<and> P (rx u') (port u')))"
  then have o: "open_port tr s = (Inr (), s1)" and P1: "P (rx s1) (port s1)"
    and ns: "\<not> stop_count s"
    by simp_all
  from h have inv: "\<exists>v u'. verify_pin tr (candidate j) u = (Inr v, u') \<and> v \<noteq> Some True
      \<and> P (rx u') (port u')" if "P (rx u) (port u)" "start \<le> j" "j \<le> stop" for u j
    using that by blast
  note r = find_code_none_valid [of tr s s1 P start stop, OF o P1 ns inv]
  show "pin (snd (find_code tr (\<lambda>i. False) start stop s)) = pin s"
    by (rule r(1))
  show "founds (logged s (snd (find_code tr (\<lambda>i. False) start stop s))) = []"
    by (rule r(2))
  show "probes (logged s (snd (find_code tr (\<lambda>i. False) start stop s)))
      = map candidate [start..stop]"
    by (rule r(3))
next
  assume "stop_count s"
  then show "pin (snd (find_code tr ctl start stop s)) = pin s"
    by (rule find_code_stopped_pin)
next
  assume "fst (find_code_try tr ctl start stop s) = Inl e"
  with find_code_pin_cases [of s tr ctl start stop]
  show "pin (snd (find_code tr ctl start stop s)) = pin s"
    by auto
next
  show "stop_count (snd (find_code tr (\<lambda>i. False) start stop s)) = stop_count s"
    by (rule find_code_keeps_flag)
next
  show "pin (init d opened) = ''0000''"
    by (simp add: init_def)
next
  show "candidate 0 = ''0000''"
    by (simp add: candidate_eval)
qed

theorem find_code_pin_and_flag_witness:
  "open_port (device (\<lambda>c. [])) (init [] False)
     = (Inr (), logging Opened ((init [] False)\<lparr>port := [], is_open := True\<rparr>))
   \<and> \<not> stop_count (init [] False :: string finder)
   \<and> verify_pin (device (\<lambda>c. [])) (candidate 7) (init [] True) = (Inr None, init [] True)
   \<and> pin (snd (find_code (device (\<lambda>c. [])) (\<lambda>i. False) 0 20 (init [] False))) = ''0000''
   \<and> founds (logged (init [] False)
        (snd (find_code (device (\<lambda>c. [])) (\<lambda>i. False) 0 20 (init [] False)))) = []
   \<and> probes (logged (init [] False)
        (snd (find_code (device (\<lambda>c. [])) (\<lambda>i. False) 0 20 (init [] False))))
       = map candidate [0..20]"
proof -
  let ?tr = "device (\<lambda>c. [])"
  let ?s = "init [] False :: string finder"
  let ?s1 = "logging Opened (?s\<lparr>port := [], is_open := True\<rparr>)"
  let ?P = "\<lambda>r d. r = ([] :: string) \<and> d = ([] :: string)"
  have o: "open_port ?tr ?s = (Inr (), ?s1)"
    by (simp add: open_port_def device_def init_def)
  have P1: "?P (rx ?s1) (port ?s1)"
    by (simp add: logging_def init_def)
  have ns: "\<not> stop_count ?s"
    by (simp add: init_def)
  have inv: "\<forall>u j. ?P (rx u) (port u) \<and> 0 \<le> j \<and> j \<le> 20 \<longrightarrow>
      (\<exists>v u'. verify_pin ?tr (candidate j) u = (Inr v, u') \<and> v \<noteq> Some True
         \<and> ?P (rx u') (port u'))"
    by (simp add: verify_device)
  have v: "verify_pin ?tr (candidate 7) (init [] True) = (Inr None, init [] True)"
    by (simp add: verify_device init_def)
  note t = find_code_pin_and_flag [where tr = ?tr and s = ?s and ?s1.0 = ?s1 and P = ?P
      and start = 0 and stop = 20,
      THEN conjunct2, THEN conjunct2, THEN conjunct2, THEN conjunct1, rule_format,
      OF conjI [OF o conjI [OF P1 conjI [OF ns inv]]]]
  from t have "pin (snd (find_code ?tr (\<lambda>i. False) 0 20 ?s)) = pin ?s"
    by blast
  then have 1: "pin (snd (find_code ?tr (\<lambda>i. False) 0 20 ?s)) = ''0000''"
    by (simp add: init_def)
  from t have 2: "founds (logged ?s (snd (find_code ?tr (\<lambda>i. False) 0 20 ?s))) = []"
    by blast
  from t have 3: "probes (logged ?s (snd (find_code ?tr (\<lambda>i. False) 0 20 ?s)))
      = map candidate [0..20]"
    by blast
  show ?thesis
    using o ns v 1 2 3 by blast
qed

end
